theory Spec2Isabelle
  imports Main
begin

section \<open>JavaScript values\<close>

text \<open>
  The service works on dynamically typed request objects.  A value is one of the JSON-like
  shapes below; an object keeps its properties in insertion order, an array keeps its
  elements.  Numbers are the integer-valued ones (identifiers, timestamps, limits), of a
  magnitude that JavaScript holds and prints exactly.
\<close>

datatype jv =
    JUndefined
  | JNull
  | JBool bool
  | JNum int
  | JStr string
  | JArr "jv list"
  | JObj "(string \<times> jv) list"

type_synonym jobj = "(string \<times> jv) list"

text \<open>Every \<open>throw\<close> of the source, and every failure of a collaborator, is a value.\<close>

datatype error =
    MissingId jobj
  | EntityNotFound jv
  | TypeError
  | External string

text \<open>Truthiness, as \<open>if (x)\<close> and \<open>x || y\<close> test it.\<close>

definition truthy :: "jv \<Rightarrow> bool" where
  "truthy v =
     (case v of
        JUndefined \<Rightarrow> False
      | JNull \<Rightarrow> False
      | JBool b \<Rightarrow> b
      | JNum n \<Rightarrow> n \<noteq> 0
      | JStr s \<Rightarrow> s \<noteq> []
      | JArr _ \<Rightarrow> True
      | JObj _ \<Rightarrow> True)"

text \<open>\<open>x == null\<close> holds of \<open>null\<close> and \<open>undefined\<close> only.\<close>

definition is_nullish :: "jv \<Rightarrow> bool" where
  "is_nullish v = (v = JNull \<or> v = JUndefined)"

definition isArray :: "jv \<Rightarrow> bool" where
  "isArray v = (case v of JArr _ \<Rightarrow> True | _ \<Rightarrow> False)"

text \<open>\<open>Array.isArray(v) ? v : [v]\<close>.\<close>

definition as_array :: "jv \<Rightarrow> jv list" where
  "as_array v = (case v of JArr xs \<Rightarrow> xs | _ \<Rightarrow> [v])"

definition isPlainObject :: "jv \<Rightarrow> bool" where
  "isPlainObject v = (case v of JObj _ \<Rightarrow> True | _ \<Rightarrow> False)"

text \<open>Decimal digits of a natural number: the property name of an array index.\<close>

definition digit_char :: "nat \<Rightarrow> char" where
  "digit_char d = char_of (48 + d)"

function dec :: "nat \<Rightarrow> string" where
  "dec n = (if n < 10 then [digit_char n] else dec (n div 10) @ [digit_char (n mod 10)])"
  by pat_completeness auto
termination
  by (relation "measure id") auto

text \<open>
  The own enumerable properties of a value, as \<open>Object.keys\<close> lists them: the properties
  of an object, the indices of an array, the character positions of a string, nothing for
  a number or a boolean.
\<close>

definition js_entries :: "jv \<Rightarrow> jobj" where
  "js_entries v =
     (case v of
        JObj kvs \<Rightarrow> kvs
      | JArr xs \<Rightarrow> zip (map dec [0..<length xs]) xs
      | JStr s \<Rightarrow> zip (map dec [0..<length s]) (map (\<lambda>c. JStr [c]) s)
      | _ \<Rightarrow> [])"

text \<open>Reading a property of an object: a missing property reads as \<open>undefined\<close>.\<close>

definition obj_get :: "jobj \<Rightarrow> string \<Rightarrow> jv" where
  "obj_get kvs k = (case map_of kvs k of Some x \<Rightarrow> x | None \<Rightarrow> JUndefined)"

text \<open>Writing a property: an existing one keeps its place, a new one goes last.\<close>

fun obj_set :: "jobj \<Rightarrow> string \<Rightarrow> jv \<Rightarrow> jobj" where
  "obj_set [] k v = [(k, v)]"
| "obj_set ((k', v') # kvs) k v =
     (if k' = k then (k, v) # kvs else (k', v') # obj_set kvs k v)"

text \<open>\<open>delete obj[k]\<close>.\<close>

definition obj_del :: "jobj \<Rightarrow> string \<Rightarrow> jobj" where
  "obj_del kvs k = filter (\<lambda>(k', _). k' \<noteq> k) kvs"

section \<open>Field Name Translator\<close>

record field =
  name :: string
  columnName :: string
  secure :: bool

text \<open>
  \<open>_getColumnNameFromFieldName\<close> (a leading underscore of the source is written \<open>u_\<close>
  throughout).  The method first looks in the memo table \<open>cacheColumnName\<close>, then in
  \<open>$fields\<close>, and stores what it found.
\<close>

definition u_getColumnNameFromFieldName ::
  "(string \<rightharpoonup> string) \<Rightarrow> field list \<Rightarrow> string \<Rightarrow> string \<times> (string \<rightharpoonup> string)" where
  "u_getColumnNameFromFieldName cacheColumnName flds fieldName =
     (let res = cacheColumnName fieldName in
      if res \<noteq> None \<and> the res \<noteq> [] then (the res, cacheColumnName)
      else (case find (\<lambda>f. name f = fieldName) flds of
              Some f \<Rightarrow> (columnName f, cacheColumnName(fieldName \<mapsto> columnName f))
            | None \<Rightarrow> (fieldName, cacheColumnName)))"

text \<open>The translation without the memo table: the first descriptor of that name decides.\<close>

definition columnNameOf :: "field list \<Rightarrow> string \<Rightarrow> string" where
  "columnNameOf flds fieldName =
     (case find (\<lambda>f. name f = fieldName) flds of
        Some f \<Rightarrow> columnName f
      | None \<Rightarrow> fieldName)"

text \<open>A memo table is sound when every entry is what the lookup in \<open>$fields\<close> gives.\<close>

definition cache_sound :: "(string \<rightharpoonup> string) \<Rightarrow> field list \<Rightarrow> bool" where
  "cache_sound c flds = (\<forall>k v. c k = Some v \<longrightarrow> v = columnNameOf flds k)"

text \<open>\<open>_sortFieldNameConversion\<close>: \<open>sort.map\<close> needs an array, \<open>startsWith\<close> a string.\<close>

definition sort_item :: "field list \<Rightarrow> jv \<Rightarrow> error + jv" where
  "sort_item flds x =
     (case x of
        JStr fieldName \<Rightarrow>
          (if take 1 fieldName = ''-''
           then Inr (JStr (''-'' @ columnNameOf flds (drop 1 fieldName)))
           else Inr (JStr (columnNameOf flds fieldName)))
      | _ \<Rightarrow> Inl TypeError)"

fun map_result :: "('a \<Rightarrow> error + 'b) \<Rightarrow> 'a list \<Rightarrow> error + 'b list" where
  "map_result f [] = Inr []"
| "map_result f (x # xs) =
     (case f x of
        Inl e \<Rightarrow> Inl e
      | Inr y \<Rightarrow> (case map_result f xs of Inl e \<Rightarrow> Inl e | Inr ys \<Rightarrow> Inr (y # ys)))"

definition u_sortFieldNameConversion :: "field list \<Rightarrow> jv \<Rightarrow> error + jv" where
  "u_sortFieldNameConversion flds sortSpec =
     (case sortSpec of
        JArr xs \<Rightarrow> (case map_result (sort_item flds) xs of Inl e \<Rightarrow> Inl e | Inr ys \<Rightarrow> Inr (JArr ys))
      | _ \<Rightarrow> Inl TypeError)"

text \<open>
  \<open>_queryFieldNameConversion\<close>: a \<open>reduce\<close> over \<open>Object.keys(query)\<close> that builds the
  result object \<open>res\<close>.  \<open>Object.keys\<close> throws on \<open>null\<close> and \<open>undefined\<close>.  The test
  that guards the recursive call reads \<open>res[columnName]\<close>, the entry of the object under
  construction.  The values of a string's entries are one-character strings, never plain
  objects, so for a string the guard is never true; the equation for \<open>JStr\<close> is written
  without the recursive call, and \<open>u_queryFieldNameConversion_string\<close> below shows that
  it agrees with the general one.
\<close>

lemma size_arr_elem: "v \<in> set xs \<Longrightarrow> size v < size (JArr xs)"
  by (induction xs) auto

lemma size_obj_elem: "(k, v) \<in> set kvs \<Longrightarrow> size v < size (JObj kvs)"
  by (induction kvs) auto

definition query_step ::
  "field list \<Rightarrow> bool \<Rightarrow> (jv \<Rightarrow> error + jobj) \<Rightarrow> error + jobj \<Rightarrow> string \<times> jv \<Rightarrow> error + jobj" where
  "query_step flds recursive self acc kv =
     (case acc of
        Inl e \<Rightarrow> Inl e
      | Inr res \<Rightarrow>
          (let columnName = columnNameOf flds (fst kv) in
           if isPlainObject (obj_get res columnName) \<and> recursive
           then (case self (snd kv) of
                   Inl e \<Rightarrow> Inl e
                 | Inr r \<Rightarrow> Inr (obj_set res columnName (JObj r)))
           else Inr (obj_set res columnName (snd kv))))"

lemma query_step_cong [fundef_cong]:
  assumes "flds = flds'" "recursive = recursive'" "acc = acc'" "kv = kv'"
    and "\<And>res. acc' = Inr res \<Longrightarrow> isPlainObject (obj_get res (columnNameOf flds' (fst kv')))
            \<Longrightarrow> recursive' \<Longrightarrow> self (snd kv') = self' (snd kv')"
  shows "query_step flds recursive self acc kv = query_step flds' recursive' self' acc' kv'"
  using assms by (auto simp: query_step_def Let_def split: sum.splits)

function (sequential) u_queryFieldNameConversion ::
  "field list \<Rightarrow> jv \<Rightarrow> bool \<Rightarrow> error + jobj" where
  "u_queryFieldNameConversion flds JUndefined recursive = Inl TypeError"
| "u_queryFieldNameConversion flds JNull recursive = Inl TypeError"
| "u_queryFieldNameConversion flds (JStr s) recursive =
     foldl (query_step flds False (\<lambda>_. Inl TypeError)) (Inr []) (js_entries (JStr s))"
| "u_queryFieldNameConversion flds query recursive =
     foldl (query_step flds recursive (\<lambda>v. u_queryFieldNameConversion flds v recursive))
       (Inr []) (js_entries query)"
  by pat_completeness auto
termination
  apply (relation "measure (\<lambda>(f, q, r). size q)")
   apply simp
  apply (auto simp: js_entries_def dest!: set_zip_rightD dest: size_arr_elem size_obj_elem)
  done

section \<open>Configuration, collaborators and state\<close>

text \<open>
  \<open>mixinOpts\<close>.  An event type names the broker method that sends the event
  (\<open>"emit"\<close> or \<open>"broadcast"\<close>); \<open>None\<close> stands for a missing or \<open>null\<close> option.
\<close>

datatype event_type = EmitEvent | BroadcastEvent

record cache_config =
  enabled :: bool
  eventType :: "event_type option"
  eventName :: "string option"

record mixin_opts =
  cache :: "cache_config option"
  maximumAdapters :: "int option"
  autoReconnect :: bool
  entityChangedEventType :: "event_type option"
  adapterDef :: jv

text \<open>The calling context; \<open>NoContext\<close> is a missing one, where the broker sends events.\<close>

datatype ctx = NoContext | Context nat

text \<open>A scope of \<open>settings.scopes\<close>: a function of the query and the context, or a static filter.\<close>

datatype scope = ScopeFunction "jv \<Rightarrow> ctx \<Rightarrow> jv" | ScopeStatic jv

text \<open>
  The calls the service makes on an adapter handle.  A handle is the identity of the
  adapter object (a number here).
\<close>

datatype request =
    ConnectReq
  | DisconnectReq
  | FindReq jobj
  | InsertReq jobj
  | InsertManyReq "jobj list" jobj
  | UpdateByIdReq jv jobj jv
  | ReplaceByIdReq jv jobj
  | RemoveByIdReq jv
  | ClearReq jv

datatype outcome = Failed error | Returned jv | Found "jv list option"

text \<open>
  What an observer of the service sees, in order: an adapter created for a tenant key, a
  call on an adapter with its outcome, a timer started, an event sent.
\<close>

datatype event =
    AdapterCreated nat string
  | AdapterCall nat request outcome
  | Timeout int
  | Emitted ctx event_type string jv

text \<open>
  The storage adapters are collaborators: each capability is a function on the state
  \<open>'w\<close> of the outside world, which may fail.  \<open>adapter_disconnect\<close> is optional
  (\<open>_.isFunction(adapter.disconnect)\<close>).  \<open>adapter.find\<close> resolves to an array or to
  nothing (\<open>None\<close>).
\<close>

record 'w adapter_api =
  adapter_connect :: "nat \<Rightarrow> 'w \<Rightarrow> (error + unit) \<times> 'w"
  adapter_disconnect :: "nat \<Rightarrow> ('w \<Rightarrow> (error + unit) \<times> 'w) option"
  adapter_find :: "nat \<Rightarrow> jobj \<Rightarrow> 'w \<Rightarrow> (error + jv list option) \<times> 'w"
  adapter_insert :: "nat \<Rightarrow> jobj \<Rightarrow> 'w \<Rightarrow> (error + jv) \<times> 'w"
  adapter_insertMany :: "nat \<Rightarrow> jobj list \<Rightarrow> jobj \<Rightarrow> 'w \<Rightarrow> (error + jv) \<times> 'w"
  adapter_updateById :: "nat \<Rightarrow> jv \<Rightarrow> jobj \<Rightarrow> jv \<Rightarrow> 'w \<Rightarrow> (error + jv) \<times> 'w"
  adapter_replaceById :: "nat \<Rightarrow> jv \<Rightarrow> jobj \<Rightarrow> 'w \<Rightarrow> (error + jv) \<times> 'w"
  adapter_removeById :: "nat \<Rightarrow> jv \<Rightarrow> 'w \<Rightarrow> (error + jv) \<times> 'w"
  adapter_clear :: "nat \<Rightarrow> jv \<Rightarrow> 'w \<Rightarrow> (error + jv) \<times> 'w"
  hasNestedFieldSupport :: "nat \<Rightarrow> jv"

text \<open>
  The service (\<open>this\<close>): its options, its schema, and the methods and hooks that other
  modules or the user provide.  The authority check, the validator and the transformer
  have the signatures of the interface description: a decision, or a value or a failure.
  \<open>getAdapterByContext\<close>, \<open>encodeID\<close> and \<open>decodeID\<close> may be overwritten by the
  service; the slots \<open>method_...\<close> hold the ones in use, the source's own bodies follow.
\<close>

record 'w service =
  mixinOpts :: mixin_opts
  svc_name :: string
  primaryField :: field
  svc_fields :: "field list"
  softDelete :: bool
  defaultScopes :: "string list option"
  scopes :: "string \<Rightarrow> scope option"
  hook_adapterConnected :: "(nat \<Rightarrow> string \<Rightarrow> jv \<Rightarrow> 'w \<Rightarrow> (error + unit) \<times> 'w) option"
  hook_adapterDisconnected :: "(nat \<Rightarrow> string \<Rightarrow> 'w \<Rightarrow> (error + unit) \<times> 'w) option"
  hook_afterResolveEntities ::
    "(ctx \<Rightarrow> jv \<Rightarrow> jv \<Rightarrow> jobj \<Rightarrow> jobj \<Rightarrow> 'w \<Rightarrow> (error + unit) \<times> 'w) option"
  method_getAdapterByContext :: "ctx \<Rightarrow> jv \<Rightarrow> string \<times> jv"
  method_encodeID :: "jv \<Rightarrow> jv"
  method_decodeID :: "jv \<Rightarrow> jv"
  checkScopeAuthority :: "ctx \<Rightarrow> jv \<Rightarrow> scope option \<Rightarrow> bool"
  validateParams :: "ctx \<Rightarrow> jobj \<Rightarrow> jobj \<Rightarrow> error + jobj"
  transformResult :: "nat \<Rightarrow> jv \<Rightarrow> jobj \<Rightarrow> ctx \<Rightarrow> error + jv"
  api :: "'w adapter_api"

definition getAdapterByContext :: "ctx \<Rightarrow> jv \<Rightarrow> string \<times> jv" where
  "getAdapterByContext c adapterDefinition = (''default'', adapterDefinition)"

definition encodeID :: "jv \<Rightarrow> jv" where
  "encodeID i = i"

definition decodeID :: "jv \<Rightarrow> jv" where
  "decodeID i = i"

text \<open>
  The pool \<open>this.adapters\<close> is a \<open>Map\<close> from tenant key to entry, in insertion order.
  \<open>clock\<close> is what \<open>Date.now()\<close> reads; \<open>nextAdapter\<close> numbers the adapter objects.
\<close>

record entry =
  hash :: string
  adapter :: nat
  touched :: int

record 'w state =
  adapters :: "(string \<times> entry) list"
  world :: 'w
  trace :: "event list"
  clock :: int
  nextAdapter :: nat

text \<open>
  An asynchronous method is a function of the state: it fails (\<open>Inl\<close>), returns
  (\<open>Inr\<close>), or never settles (\<open>None\<close>).
\<close>

type_synonym ('w, 'a) act = "'w state \<Rightarrow> ((error + 'a) \<times> 'w state) option"

definition ret :: "'a \<Rightarrow> ('w, 'a) act" where
  "ret x s = Some (Inr x, s)"

definition throw :: "error \<Rightarrow> ('w, 'a) act" where
  "throw e s = Some (Inl e, s)"

definition bnd :: "('w, 'a) act \<Rightarrow> ('a \<Rightarrow> ('w, 'b) act) \<Rightarrow> ('w, 'b) act" where
  "bnd m f s =
     (case m s of
        None \<Rightarrow> None
      | Some (Inl e, s') \<Rightarrow> Some (Inl e, s')
      | Some (Inr x, s') \<Rightarrow> f x s')"

definition lift_result :: "error + 'a \<Rightarrow> ('w, 'a) act" where
  "lift_result r s = Some (r, s)"

text \<open>A call of a hook: it acts on the outside world only.\<close>

definition call_ext :: "('w \<Rightarrow> (error + 'a) \<times> 'w) \<Rightarrow> ('w, 'a) act" where
  "call_ext f s = (case f (world s) of (r, w) \<Rightarrow> Some (r, s\<lparr>world := w\<rparr>))"

text \<open>A call on an adapter: it acts on the outside world and is observed with its outcome.\<close>

definition call_adapter ::
  "nat \<Rightarrow> request \<Rightarrow> ('a \<Rightarrow> outcome) \<Rightarrow> ('w \<Rightarrow> (error + 'a) \<times> 'w) \<Rightarrow> ('w, 'a) act" where
  "call_adapter h req out f s =
     (case f (world s) of
        (r, w) \<Rightarrow>
          Some (r, s\<lparr>world := w,
                      trace := trace s @
                        [AdapterCall h req (case r of Inl e \<Rightarrow> Failed e | Inr x \<Rightarrow> out x)]\<rparr>))"

definition emit_event :: "event \<Rightarrow> ('w, unit) act" where
  "emit_event e s = Some (Inr (), s\<lparr>trace := trace s @ [e]\<rparr>)"

text \<open>A \<open>for\<close> loop that awaits its body: it stops at the first failure.\<close>

fun for_each :: "'a list \<Rightarrow> ('a \<Rightarrow> ('w, unit) act) \<Rightarrow> ('w, unit) act" where
  "for_each [] body = ret ()"
| "for_each (x # xs) body = bnd (body x) (\<lambda>_. for_each xs body)"

section \<open>Adapter Pool Manager\<close>

text \<open>
  \<open>_disconnect\<close>: drop the entry that holds this adapter from the pool (this much runs
  before the first \<open>await\<close>), then close the connection when the adapter can, then run
  the hook.
\<close>

definition disconnect_sync :: "nat \<Rightarrow> 'w state \<Rightarrow> 'w state" where
  "disconnect_sync adapterH s =
     (case find (\<lambda>item. adapter item = adapterH) (map snd (adapters s)) of
        Some it \<Rightarrow> s\<lparr>adapters := filter (\<lambda>(k, _). k \<noteq> hash it) (adapters s)\<rparr>
      | None \<Rightarrow> s)"

definition disconnect_async :: "'w service \<Rightarrow> nat \<Rightarrow> string \<Rightarrow> ('w, unit) act" where
  "disconnect_async svc adapterH hashKey =
     bnd (case adapter_disconnect (api svc) adapterH of
            Some d \<Rightarrow> call_adapter adapterH DisconnectReq (\<lambda>_. Returned JUndefined) d
          | None \<Rightarrow> ret ())
       (\<lambda>_. case hook_adapterDisconnected svc of
               Some hk \<Rightarrow> call_ext (hk adapterH hashKey)
             | None \<Rightarrow> ret ())"

definition u_disconnect :: "'w service \<Rightarrow> nat \<Rightarrow> string \<Rightarrow> ('w, unit) act" where
  "u_disconnect svc adapterH hashKey =
     (\<lambda>s. disconnect_async svc adapterH hashKey (disconnect_sync adapterH s))"

text \<open>
  \<open>maintenanceAdapters\<close>: nothing when no maximum is set or it is below 1; otherwise the
  \<open>surplus\<close> entries that come first when sorted by \<open>touched\<close> are disconnected, one
  after the other.  \<open>Array.prototype.sort\<close> is stable, as \<open>sort_key\<close> is.
  \<open>closeable_entries\<close> is the list the loop runs over (empty when the loop is not
  reached).
\<close>

definition closeable_entries :: "'w service \<Rightarrow> 'w state \<Rightarrow> entry list" where
  "closeable_entries svc s =
     (case maximumAdapters (mixinOpts svc) of
        None \<Rightarrow> []
      | Some m \<Rightarrow>
          if m < 1 then []
          else
            let surplus = int (length (adapters s)) - m in
            if surplus > 0 then
              let sorted = sort_key touched (map snd (adapters s));
                  closeable = take (nat surplus) sorted
              in closeable
            else [])"

definition maintenanceAdapters :: "'w service \<Rightarrow> ('w, unit) act" where
  "maintenanceAdapters svc =
     (\<lambda>s. for_each (closeable_entries svc s) (\<lambda>e. u_disconnect svc (adapter e) (hash e)) s)"

text \<open>
  \<open>_connect\<close>.  One attempt is the body of the \<open>try\<close>: \<open>adapter.connect()\<close>, then the
  \<open>adapterConnected\<close> hook.  When it fails and \<open>autoReconnect\<close> is set, a timer of 1000
  milliseconds starts the next attempt; there is no counter.  The promise settles only
  through \<open>resolve\<close> or \<open>reject\<close>, so a run of attempts that all fail never settles.
\<close>

definition connect_attempt :: "'w service \<Rightarrow> nat \<Rightarrow> string \<Rightarrow> jv \<Rightarrow> ('w, unit) act" where
  "connect_attempt svc adapterH hashKey adapterOpts =
     bnd (call_adapter adapterH ConnectReq (\<lambda>_. Returned JUndefined)
            (adapter_connect (api svc) adapterH))
       (\<lambda>_. case hook_adapterConnected svc of
               Some hk \<Rightarrow> call_ext (hk adapterH hashKey adapterOpts)
             | None \<Rightarrow> ret ())"

definition setTimeout :: "int \<Rightarrow> 'w state \<Rightarrow> 'w state" where
  "setTimeout delay s = s\<lparr>trace := trace s @ [Timeout delay], clock := clock s + delay\<rparr>"

partial_function (option) connecting ::
  "'w service \<Rightarrow> nat \<Rightarrow> string \<Rightarrow> jv \<Rightarrow> 'w state \<Rightarrow> ((error + unit) \<times> 'w state) option" where
  "connecting svc adapterH hashKey adapterOpts s =
     (case connect_attempt svc adapterH hashKey adapterOpts s of
        None \<Rightarrow> None
      | Some (Inr u, s1) \<Rightarrow> Some (Inr (), s1)
      | Some (Inl err, s1) \<Rightarrow>
          (if autoReconnect (mixinOpts svc)
           then connecting svc adapterH hashKey adapterOpts (setTimeout 1000 s1)
           else Some (Inl err, s1)))"

declare connecting.simps [code]

definition u_connect :: "'w service \<Rightarrow> nat \<Rightarrow> string \<Rightarrow> jv \<Rightarrow> ('w, unit) act" where
  "u_connect svc adapterH hashKey adapterOpts = connecting svc adapterH hashKey adapterOpts"

text \<open>
  \<open>getAdapter\<close>: an entry of the pool is touched and its adapter returned; otherwise a
  new adapter is made and registered, and then the maintenance pass and the connection
  are awaited.

  Modelled from the spec: \<open>Adapters.resolve\<close> (the module \<open>./adapters\<close> is not among
  the sources) is the injected factory that synthesizes a handle that is not yet
  connected; here every call gives a new adapter object, the next number.
\<close>

definition touchEntry :: "string \<Rightarrow> 'w state \<Rightarrow> 'w state" where
  "touchEntry hashKey s =
     s\<lparr>adapters :=
         map (\<lambda>(k, e). if k = hashKey then (k, e\<lparr>touched := clock s\<rparr>) else (k, e)) (adapters s)\<rparr>"

definition registerAdapter :: "string \<Rightarrow> 'w state \<Rightarrow> 'w state" where
  "registerAdapter hashKey s =
     s\<lparr>nextAdapter := Suc (nextAdapter s),
       trace := trace s @ [AdapterCreated (nextAdapter s) hashKey],
       adapters := adapters s @
         [(hashKey, \<lparr>hash = hashKey, adapter = nextAdapter s, touched = clock s\<rparr>)]\<rparr>"

definition getAdapter :: "'w service \<Rightarrow> ctx \<Rightarrow> ('w, nat) act" where
  "getAdapter svc c =
     (\<lambda>s.
        case method_getAdapterByContext svc c (adapterDef (mixinOpts svc)) of
          (hashKey, adapterOpts) \<Rightarrow>
            (case map_of (adapters s) hashKey of
               Some item \<Rightarrow> ret (adapter item) (touchEntry hashKey s)
             | None \<Rightarrow>
                 bnd (maintenanceAdapters svc)
                   (\<lambda>_. bnd (u_connect svc (nextAdapter s) hashKey adapterOpts)
                      (\<lambda>_. ret (nextAdapter s)))
                   (registerAdapter hashKey s)))"

section \<open>Scope Resolver\<close>

text \<open>
  The name under which a value is used as a property key (\<open>String(v)\<close>): scope names
  and identifiers index objects.  A number is printed digit by digit, which is what
  JavaScript does below \<open>10\<^sup>2\<^sup>1\<close>; from there on it prints an exponent, and the
  properties that depend on the key of a number say so.
\<close>

fun join_comma :: "string list \<Rightarrow> string" where
  "join_comma [] = []"
| "join_comma [x] = x"
| "join_comma (x # y # ys) = x @ '','' @ join_comma (y # ys)"

fun js_key :: "jv \<Rightarrow> string" where
  "js_key (JStr s) = s"
| "js_key (JNum n) = (if n < 0 then ''-'' @ dec (nat (- n)) else dec (nat n))"
| "js_key (JBool b) = (if b then ''true'' else ''false'')"
| "js_key JNull = ''null''"
| "js_key JUndefined = ''undefined''"
| "js_key (JObj kvs) = ''[object Object]''"
| "js_key (JArr xs) = join_comma (map (\<lambda>x. if is_nullish x then [] else js_key x) xs)"

text \<open>
  Modelled from the spec: \<open>_.defaultsDeep\<close> and \<open>_.cloneDeep\<close> belong to the lodash
  library, which is not among the sources.  A static scope is deep-merged into the query
  without overwriting keys already present: a key the query lacks (or holds as
  \<open>undefined\<close>) is taken from the scope, two objects under the same key are merged the
  same way, anything else of the query stays.  Values are immutable here, so a deep copy
  is the value itself.
\<close>

function defaultsDeep :: "jv \<Rightarrow> jv \<Rightarrow> jv" where
  "defaultsDeep query scopeDef =
     (case (query, scopeDef) of
        (JObj q, JObj d) \<Rightarrow>
          JObj (foldl (\<lambda>acc kv.
                  if obj_get acc (fst kv) = JUndefined then obj_set acc (fst kv) (snd kv)
                  else obj_set acc (fst kv) (defaultsDeep (obj_get acc (fst kv)) (snd kv)))
                q d)
      | _ \<Rightarrow> query)"
  by pat_completeness auto
termination
  apply (relation "measure (\<lambda>(q, d). size d)")
   apply simp
  apply (auto dest: size_obj_elem)
  done

definition cloneDeep :: "jv \<Rightarrow> jv" where
  "cloneDeep v = v"

text \<open>\<open>if (!scope)\<close>: a missing scope, or a static one that is falsy.\<close>

definition scope_truthy :: "scope option \<Rightarrow> bool" where
  "scope_truthy sc =
     (case sc of
        None \<Rightarrow> False
      | Some (ScopeFunction f) \<Rightarrow> True
      | Some (ScopeStatic v) \<Rightarrow> truthy v)"

definition u_filterScopeNamesByPermission :: "'w service \<Rightarrow> ctx \<Rightarrow> jv list \<Rightarrow> jv list" where
  "u_filterScopeNamesByPermission svc c scopeNames =
     filter (\<lambda>scopeName.
        let sc = scopes svc (js_key scopeName) in
        scope_truthy sc \<and> checkScopeAuthority svc c scopeName sc) scopeNames"

text \<open>
  The second half of \<open>_applyScopes\<close>: when the chosen list is there and not empty, the
  permitted scopes are folded into a copy of the query, from left to right.
\<close>

definition apply_scope_names :: "'w service \<Rightarrow> jv list option \<Rightarrow> jobj \<Rightarrow> ctx \<Rightarrow> jobj" where
  "apply_scope_names svc scopeNames params c =
     (case scopeNames of
        None \<Rightarrow> params
      | Some names \<Rightarrow>
          if length names > 0 then
            obj_set params ''query''
              (foldl (\<lambda>query scopeName.
                  let sc = scopes svc (js_key scopeName) in
                  if \<not> scope_truthy sc then query
                  else (case sc of
                          Some (ScopeFunction f) \<Rightarrow> f query c
                        | Some (ScopeStatic d) \<Rightarrow> defaultsDeep query d
                        | None \<Rightarrow> query))
                (cloneDeep (if truthy (obj_get params ''query'') then obj_get params ''query''
                            else JObj []))
                (u_filterScopeNamesByPermission svc c names))
          else params)"

text \<open>
  The first half: which list of scope names is chosen.  A truthy \<open>params.scope\<close> is the
  list (or the one name); \<open>scope === false\<close> asks the authority check, with no scope
  name and no scope, whether the default scopes may be left out; anything else takes the
  default scopes.
\<close>

definition chosen_scopes :: "'w service \<Rightarrow> jobj \<Rightarrow> ctx \<Rightarrow> jv list option" where
  "chosen_scopes svc params c =
     (let sc = obj_get params ''scope'' in
      if truthy sc then Some (as_array sc)
      else if sc = JBool False then
        (if \<not> checkScopeAuthority svc c JNull None
         then map_option (map JStr) (defaultScopes svc)
         else None)
      else map_option (map JStr) (defaultScopes svc))"

definition u_applyScopes :: "'w service \<Rightarrow> jobj \<Rightarrow> ctx \<Rightarrow> jobj" where
  "u_applyScopes svc params c = apply_scope_names svc (chosen_scopes svc params c) params c"

section \<open>Entity Operation Pipeline\<close>

text \<open>\<open>paramsFieldNameConversion\<close>: \<open>sort\<close>, \<open>searchFields\<close> and \<open>query\<close>, in this order.\<close>

definition convert_if_set ::
  "jobj \<Rightarrow> string \<Rightarrow> (jv \<Rightarrow> error + jv) \<Rightarrow> error + jobj" where
  "convert_if_set p k conv =
     (if truthy (obj_get p k)
      then (case conv (obj_get p k) of Inl e \<Rightarrow> Inl e | Inr v \<Rightarrow> Inr (obj_set p k v))
      else Inr p)"

definition paramsFieldNameConversion :: "'w service \<Rightarrow> jobj \<Rightarrow> error + jobj" where
  "paramsFieldNameConversion svc p =
     (case convert_if_set p ''sort'' (u_sortFieldNameConversion (svc_fields svc)) of
        Inl e \<Rightarrow> Inl e
      | Inr p1 \<Rightarrow>
          (case convert_if_set p1 ''searchFields'' (u_sortFieldNameConversion (svc_fields svc)) of
             Inl e \<Rightarrow> Inl e
           | Inr p2 \<Rightarrow>
               convert_if_set p2 ''query''
                 (\<lambda>q. case u_queryFieldNameConversion (svc_fields svc) q True of
                        Inl e \<Rightarrow> Inl e
                      | Inr r \<Rightarrow> Inr (JObj r))))"

text \<open>\<open>_getIDFromParams\<close> and \<open>_sanitizeID\<close>.\<close>

definition u_getIDFromParams :: "'w service \<Rightarrow> jobj \<Rightarrow> bool \<Rightarrow> error + jv" where
  "u_getIDFromParams svc params throwIfNotExist =
     (let i = obj_get params (name (primaryField svc)) in
      if throwIfNotExist \<and> is_nullish i then Inl (MissingId params) else Inr i)"

definition u_sanitizeID :: "'w service \<Rightarrow> jv \<Rightarrow> jobj \<Rightarrow> jv" where
  "u_sanitizeID svc i opts =
     (if \<not> is_nullish (obj_get opts ''secureID'')
      then (if truthy (obj_get opts ''secureID'') then method_decodeID svc i else i)
      else if secure (primaryField svc) then method_decodeID svc i
      else i)"

text \<open>
  \<open>entityChanged\<close> sends the entity lifecycle event; \<open>_entityChanged\<close> sends the cache
  cleaning event first.  \<open>cacheOpts\<close> is \<open>null\<close> unless the cache is there and enabled,
  and reading \<open>cacheOpts.eventType\<close> of \<open>null\<close> throws a \<open>TypeError\<close>.
\<close>

definition cacheOpts :: "mixin_opts \<Rightarrow> cache_config option" where
  "cacheOpts mo = (case cache mo of Some co \<Rightarrow> if enabled co then Some co else None | None \<Rightarrow> None)"

definition payload :: "string \<Rightarrow> jv \<Rightarrow> jobj \<Rightarrow> jv" where
  "payload type d opts = JObj [(''type'', JStr type), (''data'', d), (''opts'', JObj opts)]"

definition entityChanged :: "'w service \<Rightarrow> string \<Rightarrow> jv \<Rightarrow> ctx \<Rightarrow> jobj \<Rightarrow> ('w, unit) act" where
  "entityChanged svc type d c opts =
     (case entityChangedEventType (mixinOpts svc) of
        Some et \<Rightarrow>
          (let op = type @ (if type = ''clear'' then ''ed'' else ''d'');
               evName = svc_name svc @ ''.'' @ op
           in emit_event (Emitted c et evName (payload type d opts)))
      | None \<Rightarrow> ret ())"

definition u_entityChanged :: "'w service \<Rightarrow> string \<Rightarrow> jv \<Rightarrow> ctx \<Rightarrow> jobj \<Rightarrow> ('w, unit) act" where
  "u_entityChanged svc type d c opts =
     bnd (case cacheOpts (mixinOpts svc) of
            None \<Rightarrow> throw TypeError
          | Some co \<Rightarrow>
              (case eventType co of
                 Some et \<Rightarrow>
                   (let evName = (case eventName co of
                                    Some n \<Rightarrow> if n \<noteq> [] then n else ''cache.clean.'' @ svc_name svc
                                  | None \<Rightarrow> ''cache.clean.'' @ svc_name svc)
                    in if evName \<noteq> [] then emit_event (Emitted c et evName (payload type d opts))
                       else ret ())
               | None \<Rightarrow> ret ()))
       (\<lambda>_. entityChanged svc type d c opts)"

text \<open>
  \<open>resolveEntities\<close>, in the order of the source.  First the part before the adapter is
  asked for: the identifier (or list of identifiers) is read and decoded, the scopes are
  applied, the names are translated, and the identifier filter is written into the query.
  Writing a property into a query that is not an object throws.
\<close>

definition js_index :: "jv list \<Rightarrow> nat \<Rightarrow> jv" where
  "js_index xs i = (if i < length xs then xs ! i else JUndefined)"

definition resolve_query ::
  "'w service \<Rightarrow> ctx \<Rightarrow> jobj \<Rightarrow> jobj \<Rightarrow> error + (bool \<times> jv list \<times> jobj)" where
  "resolve_query svc c params opts =
     (case u_getIDFromParams svc params True of
        Inl e \<Rightarrow> Inl e
      | Inr i \<Rightarrow>
          let multi = isArray i;
              ids = map (\<lambda>x. u_sanitizeID svc x opts) (if multi then as_array i else [i]);
              p0 = (if \<not> truthy (obj_get params ''query'') then obj_set params ''query'' (JObj [])
                    else params);
              p1 = u_applyScopes svc p0 c
          in (case paramsFieldNameConversion svc p1 of
                Inl e \<Rightarrow> Inl e
              | Inr p2 \<Rightarrow>
                  let idField = columnName (primaryField svc) in
                  (case obj_get p2 ''query'' of
                     JObj q \<Rightarrow>
                       Inr (multi, ids,
                            obj_set p2 ''query''
                              (JObj (obj_set q idField
                                 (if multi then JObj [(''$in'', JArr ids)] else js_index ids 0))))
                   | _ \<Rightarrow> Inl TypeError)))"

text \<open>
  The \<open>reduce\<close> that builds the mapping: the document at position \<open>i\<close> goes under the
  identifier of the untransformed entity at the same position, encoded when the primary
  field is secure.  Reading the identifier of a missing entity throws.
\<close>

fun build_mapping ::
  "'w service \<Rightarrow> jv list \<Rightarrow> jobj \<Rightarrow> nat \<Rightarrow> jv list \<Rightarrow> error + jobj" where
  "build_mapping svc unTransformedRes acc i [] = Inr acc"
| "build_mapping svc unTransformedRes acc i (doc # docs) =
     (let u = js_index unTransformedRes i in
      if is_nullish u then Inl TypeError
      else
        let i0 = obj_get (js_entries u) (columnName (primaryField svc));
            i1 = (if secure (primaryField svc) then method_encodeID svc i0 else i0)
        in build_mapping svc unTransformedRes (obj_set acc (js_key i1) doc) (Suc i) docs)"

definition no_match :: "jv list option \<Rightarrow> bool" where
  "no_match result = (case result of None \<Rightarrow> True | Some xs \<Rightarrow> length xs = 0)"

text \<open>The part of \<open>resolveEntities\<close> after \<open>adapter.find\<close> has answered.\<close>

definition resolve_finish ::
  "'w service \<Rightarrow> ctx \<Rightarrow> jobj \<Rightarrow> jobj \<Rightarrow> jv \<Rightarrow> bool \<Rightarrow> jv list \<Rightarrow> jobj \<Rightarrow> nat \<Rightarrow>
     jv list option \<Rightarrow> ('w, jv) act" where
  "resolve_finish svc c origParams opts origID multi ids params adapterH result =
     (if no_match result then
        (if truthy (obj_get opts ''throwIfNotExist'') then throw (EntityNotFound origID)
         else ret (if obj_get params ''mapping'' = JBool True then JObj []
                   else if multi then JArr [] else JNull))
      else
        let found = (case result of Some xs \<Rightarrow> xs | None \<Rightarrow> []) in
        bnd (case hook_afterResolveEntities svc of
               Some hk \<Rightarrow>
                 call_ext (hk c (if multi then JArr ids else js_index ids 0)
                             (if multi then JArr found else js_index found 0) origParams opts)
             | None \<Rightarrow> ret ())
          (\<lambda>_. bnd (if obj_get opts ''transform'' \<noteq> JBool False
                     then lift_result (transformResult svc adapterH (JArr found) params c)
                     else ret (JArr found))
             (\<lambda>res.
                if obj_get params ''mapping'' = JBool True then
                  (case res of
                     JArr docs \<Rightarrow>
                       (case build_mapping svc found [] 0 docs of
                          Inl e \<Rightarrow> throw e
                        | Inr m \<Rightarrow> ret (JObj m))
                   | _ \<Rightarrow> throw TypeError)
                else if \<not> multi then
                  (if is_nullish res then throw TypeError else ret (obj_get (js_entries res) ''0''))
                else ret res)))"

definition find_call :: "'w service \<Rightarrow> nat \<Rightarrow> jobj \<Rightarrow> ('w, jv list option) act" where
  "find_call svc adapterH params =
     call_adapter adapterH (FindReq params) Found (adapter_find (api svc) adapterH params)"

definition resolveEntities :: "'w service \<Rightarrow> ctx \<Rightarrow> jobj \<Rightarrow> jobj \<Rightarrow> ('w, jv) act" where
  "resolveEntities svc c params opts =
     (case resolve_query svc c params opts of
        Inl e \<Rightarrow> throw e
      | Inr (multi, ids, p) \<Rightarrow>
          bnd (getAdapter svc c)
            (\<lambda>adapterH. bnd (find_call svc adapterH p)
               (\<lambda>result.
                  resolve_finish svc c params opts (obj_get params (name (primaryField svc)))
                    multi ids p adapterH result)))"

text \<open>The options with which the write operations look the old entity up.\<close>

definition lookup_opts :: jobj where
  "lookup_opts = [(''transform'', JBool False), (''throwIfNotExist'', JBool True)]"

definition transform_unless_disabled ::
  "'w service \<Rightarrow> jobj \<Rightarrow> nat \<Rightarrow> jv \<Rightarrow> jobj \<Rightarrow> ctx \<Rightarrow> ('w, jv) act" where
  "transform_unless_disabled svc opts adapterH result params c =
     (if obj_get opts ''transform'' \<noteq> JBool False
      then lift_result (transformResult svc adapterH result params c)
      else ret result)"

text \<open>An object literal \<open>{...opts, k: v, ...}\<close>.\<close>

definition with_opts :: "jobj \<Rightarrow> (string \<times> jv) list \<Rightarrow> jobj" where
  "with_opts opts extra = foldl (\<lambda>acc kv. obj_set acc (fst kv) (snd kv)) opts extra"

text \<open>\<open>createEntity\<close> and \<open>createEntities\<close>.\<close>

definition createEntity :: "'w service \<Rightarrow> ctx \<Rightarrow> jobj \<Rightarrow> jobj \<Rightarrow> ('w, jv) act" where
  "createEntity svc c params opts =
     bnd (getAdapter svc c)
       (\<lambda>adapterH. bnd (lift_result
                         (validateParams svc c params
                            (with_opts opts
                               [(''type'', JStr ''create''),
                                (''nestedFieldSupport'', hasNestedFieldSupport (api svc) adapterH)])))
          (\<lambda>params1. bnd (call_adapter adapterH (InsertReq params1) Returned
                            (adapter_insert (api svc) adapterH params1))
             (\<lambda>result. bnd (transform_unless_disabled svc opts adapterH result [] c)
                (\<lambda>result1. bnd (u_entityChanged svc ''create'' result1 c opts)
                   (\<lambda>_. ret result1)))))"

definition createEntities :: "'w service \<Rightarrow> ctx \<Rightarrow> jobj list \<Rightarrow> jobj \<Rightarrow> ('w, jv) act" where
  "createEntities svc c params opts =
     bnd (getAdapter svc c)
       (\<lambda>adapterH.
          bnd (lift_result
                 (map_result
                    (\<lambda>entity.
                       validateParams svc c entity
                         (with_opts opts
                            [(''type'', JStr ''create''),
                             (''nestedFieldSupport'', hasNestedFieldSupport (api svc) adapterH)]))
                    params))
            (\<lambda>entities.
               let callOpts = [(''returnEntities'', obj_get opts ''returnEntities'')] in
               bnd (call_adapter adapterH (InsertManyReq entities callOpts) Returned
                      (adapter_insertMany (api svc) adapterH entities callOpts))
                 (\<lambda>result.
                    bnd (if truthy (obj_get opts ''returnEntities'')
                         then transform_unless_disabled svc opts adapterH result [] c
                         else ret result)
                      (\<lambda>result1.
                         bnd (u_entityChanged svc ''create'' result1 c
                                (with_opts opts [(''batch'', JBool True)]))
                           (\<lambda>_. ret result1)))))"

text \<open>
  \<open>updateEntity\<close>.  \<open>update_prepare\<close> is the source up to the two \<open>delete\<close> statements
  and yields the adapter, the decoded identifier, the old entity and the patch body;
  \<open>update_commit\<close> is the rest.
\<close>

definition update_prepare ::
  "'w service \<Rightarrow> ctx \<Rightarrow> jobj \<Rightarrow> jobj \<Rightarrow> ('w, nat \<times> jv \<times> jv \<times> jobj) act" where
  "update_prepare svc c params opts =
     bnd (getAdapter svc c)
       (\<lambda>adapterH. bnd (lift_result (u_getIDFromParams svc params True))
          (\<lambda>i. bnd (resolveEntities svc c params lookup_opts)
             (\<lambda>oldEntity.
                bnd (if \<not> (obj_get opts ''raw'' = JBool True)
                     then lift_result
                            (validateParams svc c params
                               (with_opts opts
                                  [(''type'', JStr ''update''),
                                   (''oldEntity'', oldEntity),
                                   (''nestedFieldSupport'',
                                    hasNestedFieldSupport (api svc) adapterH)]))
                     else ret params)
                  (\<lambda>params1.
                     ret (adapterH, u_sanitizeID svc i opts, oldEntity,
                          obj_del (obj_del params1 (columnName (primaryField svc)))
                            (name (primaryField svc)))))))"

definition update_commit ::
  "'w service \<Rightarrow> ctx \<Rightarrow> jobj \<Rightarrow> nat \<times> jv \<times> jv \<times> jobj \<Rightarrow> ('w, jv) act" where
  "update_commit svc c opts prepared =
     (case prepared of
        (adapterH, i, oldEntity, params) \<Rightarrow>
          let hasChanges = length params > 0;
              callOpts = JObj [(''raw'', JBool (obj_get opts ''raw'' = JBool True))]
          in bnd (if hasChanges
                  then call_adapter adapterH (UpdateByIdReq i params callOpts) Returned
                         (adapter_updateById (api svc) adapterH i params callOpts)
                  else ret oldEntity)
               (\<lambda>result. bnd (transform_unless_disabled svc opts adapterH result [] c)
                  (\<lambda>result1. bnd (if hasChanges then u_entityChanged svc ''update'' result1 c opts
                                   else ret ())
                     (\<lambda>_. ret result1))))"

definition updateEntity :: "'w service \<Rightarrow> ctx \<Rightarrow> jobj \<Rightarrow> jobj \<Rightarrow> ('w, jv) act" where
  "updateEntity svc c params opts =
     bnd (update_prepare svc c (case cloneDeep (JObj params) of JObj p \<Rightarrow> p | _ \<Rightarrow> params) opts)
       (update_commit svc c opts)"



text \<open>\<open>clearEntities\<close>: \<open>_entityChanged\<close> is called without options, so with \<open>{}\<close>.\<close>

definition clearEntities :: "'w service \<Rightarrow> ctx \<Rightarrow> jv \<Rightarrow> ('w, jv) act" where
  "clearEntities svc c params =
     bnd (getAdapter svc c)
       (\<lambda>adapterH. bnd (call_adapter adapterH (ClearReq params) Returned
                         (adapter_clear (api svc) adapterH params))
          (\<lambda>result. bnd (u_entityChanged svc ''clear'' JNull c [])
             (\<lambda>_. ret result)))"


section \<open>Concurrent calls of getAdapter\<close>

text \<open>
  JavaScript runs one call at a time and switches between calls only where a call
  awaits.  A pending call of \<open>getAdapter\<close> is therefore at one of these places:
  \<^item> \<open>Start\<close>: at \<open>await this.getAdapterByContext(...)\<close>, before the pool is read;
  \<^item> \<open>Disconnecting\<close>: inside the loop of \<open>maintenanceAdapters\<close>, where \<open>_disconnect\<close>
    has taken the entry \<open>e\<close> out of the pool and awaits the adapter and the hook; the
    entries that are still to be closed follow;
  \<^item> \<open>Connect\<close>: in \<open>_connect\<close>, at a connection attempt or at the timer before the next;
  \<^item> \<open>Done\<close>: settled, with the adapter or with the failure.
  One step of a call is what it does between two such places.  Reading the pool and
  registering a new adapter are in the same step (no \<open>await\<close> stands between
  \<open>this.adapters.get\<close> and \<open>this.adapters.set\<close>), and so is the removal of the first
  entry to be closed.  A call of the adapter or of a hook acts when it settles: the step
  that resumes after the \<open>await\<close> records the call with its outcome.
\<close>

datatype pc =
    Start
  | Disconnecting nat string jv entry "entry list"
  | Connect nat string jv
  | Done "error + nat"

definition next_disconnect ::
  "nat \<Rightarrow> string \<Rightarrow> jv \<Rightarrow> entry list \<Rightarrow> 'w state \<Rightarrow> pc \<times> 'w state" where
  "next_disconnect adapterH hashKey adapterOpts closeable s =
     (case closeable of
        [] \<Rightarrow> (Connect adapterH hashKey adapterOpts, s)
      | e # rest \<Rightarrow>
          (Disconnecting adapterH hashKey adapterOpts e rest, disconnect_sync (adapter e) s))"

definition task_step :: "'w service \<Rightarrow> ctx \<Rightarrow> pc \<Rightarrow> 'w state \<Rightarrow> pc \<times> 'w state" where
  "task_step svc c p s =
     (case p of
        Start \<Rightarrow>
          (case method_getAdapterByContext svc c (adapterDef (mixinOpts svc)) of
             (hashKey, adapterOpts) \<Rightarrow>
               (case map_of (adapters s) hashKey of
                  Some item \<Rightarrow> (Done (Inr (adapter item)), touchEntry hashKey s)
                | None \<Rightarrow>
                    next_disconnect (nextAdapter s) hashKey adapterOpts
                      (closeable_entries svc (registerAdapter hashKey s))
                      (registerAdapter hashKey s)))
      | Disconnecting adapterH hashKey adapterOpts e rest \<Rightarrow>
          (case disconnect_async svc (adapter e) (hash e) s of
             Some (Inr u, s1) \<Rightarrow> next_disconnect adapterH hashKey adapterOpts rest s1
           | Some (Inl err, s1) \<Rightarrow> (Done (Inl err), s1)
           | None \<Rightarrow> (p, s))
      | Connect adapterH hashKey adapterOpts \<Rightarrow>
          (case connect_attempt svc adapterH hashKey adapterOpts s of
             Some (Inr u, s1) \<Rightarrow> (Done (Inr adapterH), s1)
           | Some (Inl err, s1) \<Rightarrow>
               (if autoReconnect (mixinOpts svc)
                then (Connect adapterH hashKey adapterOpts, setTimeout 1000 s1)
                else (Done (Inl err), s1))
           | None \<Rightarrow> (p, s))
      | Done r \<Rightarrow> (p, s))"

text \<open>
  A configuration is the shared state of the service and the pending calls, each with
  its context.  A schedule names, step by step, the call that runs next; every order in
  which the event loop can resume the calls is a schedule.
\<close>

record 'w conf =
  shared :: "'w state"
  tasks :: "(ctx \<times> pc) list"

definition sched_step :: "'w service \<Rightarrow> nat \<Rightarrow> 'w conf \<Rightarrow> 'w conf" where
  "sched_step svc i cf =
     (if i < length (tasks cf) then
        (case tasks cf ! i of
           (c, p) \<Rightarrow>
             (case task_step svc c p (shared cf) of
                (p', s') \<Rightarrow> \<lparr>shared = s', tasks = (tasks cf)[i := (c, p')]\<rparr>))
      else cf)"

fun run_schedule :: "'w service \<Rightarrow> nat list \<Rightarrow> 'w conf \<Rightarrow> 'w conf" where
  "run_schedule svc [] cf = cf"
| "run_schedule svc (i # sched) cf = run_schedule svc sched (sched_step svc i cf)"

definition tenant_key :: "'w service \<Rightarrow> ctx \<Rightarrow> string" where
  "tenant_key svc c = fst (method_getAdapterByContext svc c (adapterDef (mixinOpts svc)))"

definition calls :: "ctx list \<Rightarrow> (ctx \<times> pc) list" where
  "calls cs = map (\<lambda>c. (c, Start)) cs"


section \<open>The vocabulary of the properties\<close>

text \<open>
  The events that a run added to the trace.  \<open>adds P m\<close> says that every run of \<open>m\<close>
  only appends to the trace, and only events that satisfy \<open>P\<close>.
\<close>

definition new_events :: "'w state \<Rightarrow> 'w state \<Rightarrow> event list" where
  "new_events s s' = drop (length (trace s)) (trace s')"

definition adds :: "(event \<Rightarrow> bool) \<Rightarrow> ('w, 'a) act \<Rightarrow> bool" where
  "adds P m = (\<forall>s r s'. m s = Some (r, s') \<longrightarrow> (\<exists>evs. trace s' = trace s @ evs \<and> list_all P evs))"

text \<open>
  Kinds of events: what the pool manager does, a lookup, a write on an adapter (an adapter
  mutation), an event sent to the broker.
\<close>

definition pool_event :: "event \<Rightarrow> bool" where
  "pool_event e =
     (case e of
        AdapterCreated _ _ \<Rightarrow> True
      | AdapterCall _ ConnectReq _ \<Rightarrow> True
      | AdapterCall _ DisconnectReq _ \<Rightarrow> True
      | Timeout _ \<Rightarrow> True
      | _ \<Rightarrow> False)"

definition is_find :: "event \<Rightarrow> bool" where
  "is_find e = (case e of AdapterCall _ (FindReq _) _ \<Rightarrow> True | _ \<Rightarrow> False)"

definition not_find :: "event \<Rightarrow> bool" where
  "not_find e = (\<not> is_find e)"

definition lookup_event :: "event \<Rightarrow> bool" where
  "lookup_event e = (pool_event e \<or> is_find e)"

definition is_write :: "event \<Rightarrow> bool" where
  "is_write e =
     (case e of
        AdapterCall _ (InsertReq _) _ \<Rightarrow> True
      | AdapterCall _ (InsertManyReq _ _) _ \<Rightarrow> True
      | AdapterCall _ (UpdateByIdReq _ _ _) _ \<Rightarrow> True
      | AdapterCall _ (ReplaceByIdReq _ _) _ \<Rightarrow> True
      | AdapterCall _ (RemoveByIdReq _) _ \<Rightarrow> True
      | AdapterCall _ (ClearReq _) _ \<Rightarrow> True
      | _ \<Rightarrow> False)"

definition is_emitted :: "event \<Rightarrow> bool" where
  "is_emitted e = (case e of Emitted _ _ _ _ \<Rightarrow> True | _ \<Rightarrow> False)"

text \<open>The timers and the connection attempts on an adapter that a trace shows.\<close>

definition timeouts :: "event list \<Rightarrow> int list" where
  "timeouts evs = concat (map (\<lambda>e. case e of Timeout d \<Rightarrow> [d] | _ \<Rightarrow> []) evs)"

definition connect_calls :: "nat \<Rightarrow> event list \<Rightarrow> nat" where
  "connect_calls h evs =
     length (filter (\<lambda>e. case e of AdapterCall h' ConnectReq _ \<Rightarrow> h' = h | _ \<Rightarrow> False) evs)"

text \<open>
  A pool as \<open>getAdapter\<close> builds it: one entry per key, one adapter object per entry, and
  every entry filed under its own \<open>hash\<close>.
\<close>

definition pool_wf :: "(string \<times> entry) list \<Rightarrow> bool" where
  "pool_wf p =
     (distinct (map fst p) \<and> distinct (map (\<lambda>(k, e). adapter e) p) \<and> (\<forall>(k, e) \<in> set p. hash e = k))"

text \<open>
  The state after \<open>n\<close> connection attempts that all failed, each followed by its timer
  (\<open>None\<close> when one of them did not fail); and a state from which every attempt fails.
\<close>

fun failed_attempts ::
  "'w service \<Rightarrow> nat \<Rightarrow> string \<Rightarrow> jv \<Rightarrow> nat \<Rightarrow> 'w state \<Rightarrow> 'w state option" where
  "failed_attempts svc adapterH hashKey adapterOpts 0 s = Some s"
| "failed_attempts svc adapterH hashKey adapterOpts (Suc n) s =
     (case connect_attempt svc adapterH hashKey adapterOpts s of
        Some (Inl err, s1) \<Rightarrow>
          failed_attempts svc adapterH hashKey adapterOpts n (setTimeout 1000 s1)
      | _ \<Rightarrow> None)"

definition always_fails :: "'w service \<Rightarrow> nat \<Rightarrow> string \<Rightarrow> jv \<Rightarrow> 'w state \<Rightarrow> bool" where
  "always_fails svc h k opts s =
     (\<forall>n. \<exists>sn err s1. failed_attempts svc h k opts n s = Some sn \<and>
        connect_attempt svc h k opts sn = Some (Inl err, s1))"

text \<open>
  The identifiers a resolve call asks for, decoded; the stored identifier of an entity;
  the property name under which a stored identifier appears in a mapping; and the
  documents that go into the mapping.
\<close>

definition requested_ids :: "'w service \<Rightarrow> jobj \<Rightarrow> jobj \<Rightarrow> jv list" where
  "requested_ids svc params opts =
     map (\<lambda>x. u_sanitizeID svc x opts) (as_array (obj_get params (name (primaryField svc))))"

definition entity_id :: "'w service \<Rightarrow> jv \<Rightarrow> jv" where
  "entity_id svc e = obj_get (js_entries e) (columnName (primaryField svc))"

definition id_key :: "'w service \<Rightarrow> jv \<Rightarrow> string" where
  "id_key svc i = js_key (if secure (primaryField svc) then method_encodeID svc i else i)"

definition mapping_key :: "'w service \<Rightarrow> jv \<Rightarrow> string" where
  "mapping_key svc e = id_key svc (entity_id svc e)"

definition mapped_documents ::
  "'w service \<Rightarrow> jobj \<Rightarrow> nat \<Rightarrow> jv list \<Rightarrow> jobj \<Rightarrow> ctx \<Rightarrow> error + jv" where
  "mapped_documents svc opts h found q c =
     (if found = [] then Inr (JArr [])
      else if obj_get opts ''transform'' \<noteq> JBool False
      then transformResult svc h (JArr found) q c
      else Inr (JArr found))"

text \<open>
  The call of the \<open>afterResolveEntities\<close> hook as \<open>resolveEntities\<close> makes it (nothing
  when the hook is not set), and the mapping that files the document at each position
  under the key of the found entity at that position, a later document replacing an
  earlier one under the same key.
\<close>

definition after_resolve_hook ::
  "'w service \<Rightarrow> ctx \<Rightarrow> bool \<Rightarrow> jv list \<Rightarrow> jv list \<Rightarrow> jobj \<Rightarrow> jobj \<Rightarrow> ('w, unit) act" where
  "after_resolve_hook svc c multi ids found origParams opts =
     (case hook_afterResolveEntities svc of
        Some hk \<Rightarrow>
          call_ext (hk c (if multi then JArr ids else js_index ids 0)
                      (if multi then JArr found else js_index found 0) origParams opts)
      | None \<Rightarrow> ret ())"


definition mapping_of :: "'w service \<Rightarrow> jv list \<Rightarrow> jv list \<Rightarrow> jobj" where
  "mapping_of svc found docs =
     foldl (\<lambda>m kd. obj_set m (fst kd) (snd kd)) [] (zip (map (mapping_key svc) found) docs)"


text \<open>
  The values that \<open>String\<close> prints digit by digit, as \<open>js_key\<close> does: JavaScript prints a
  number of magnitude \<open>10\<^sup>2\<^sup>1\<close> or more with an exponent.
\<close>

fun digit_printed :: "jv \<Rightarrow> bool" where
  "digit_printed (JNum n) = (\<bar>n\<bar> < 10 ^ 21)"
| "digit_printed (JArr xs) = list_all digit_printed xs"
| "digit_printed v = True"
















text \<open>
  The adapters created for a tenant key that a trace shows; the adapters that the
  settled calls for a tenant key received; the calls that are connecting an adapter for
  a tenant key.
\<close>

definition created_for :: "string \<Rightarrow> event list \<Rightarrow> nat list" where
  "created_for k evs =
     concat (map (\<lambda>e. case e of AdapterCreated h k' \<Rightarrow> (if k' = k then [h] else []) | _ \<Rightarrow> []) evs)"

definition received :: "'w service \<Rightarrow> string \<Rightarrow> (ctx \<times> pc) list \<Rightarrow> nat list" where
  "received svc k ts =
     concat (map (\<lambda>t. case snd t of
                         Done (Inr h) \<Rightarrow> (if tenant_key svc (fst t) = k then [h] else [])
                       | _ \<Rightarrow> []) ts)"

definition connecting_for :: "string \<Rightarrow> (ctx \<times> pc) list \<Rightarrow> (ctx \<times> pc) list" where
  "connecting_for k ts =
     filter (\<lambda>t. case snd t of Connect h k' adapterOpts \<Rightarrow> k' = k | _ \<Rightarrow> False) ts"

text \<open>
  The tenant keys of the calls that the pool does not hold yet.  The pool has room for
  the calls when it has no maximum, or when its entries and these keys together are no
  more than the maximum: then \<open>maintenanceAdapters\<close> finds nothing to close.
\<close>

definition new_keys :: "'w service \<Rightarrow> 'w state \<Rightarrow> ctx list \<Rightarrow> string list" where
  "new_keys svc s cs =
     remdups (filter (\<lambda>k. map_of (adapters s) k = None) (map (tenant_key svc) cs))"

definition pool_has_room :: "'w service \<Rightarrow> 'w state \<Rightarrow> ctx list \<Rightarrow> bool" where
  "pool_has_room svc s cs =
     (case maximumAdapters (mixinOpts svc) of
        None \<Rightarrow> True
      | Some m \<Rightarrow> m < 1 \<or> int (length (adapters s)) + int (length (new_keys svc s cs)) \<le> m)"

text \<open>
  What holds while calls of \<open>getAdapter\<close> run on a pool with room.  The pool holds an
  adapter under a key.  A call that is connecting works on the adapter that it created
  for its own key and that the pool holds under that key; a call that has settled with an
  adapter has the one that the pool holds under its key; no call is closing an adapter.
  For every key, no more calls are connecting than adapters were created, at most one was
  created and the pool holds it, and nothing was created for a key that the pool held at
  the start.  Every connection attempt is on an adapter that was created since the start.
\<close>

definition holds :: "(string \<times> entry) list \<Rightarrow> string \<Rightarrow> nat \<Rightarrow> bool" where
  "holds pool k h = (case map_of pool k of Some e \<Rightarrow> adapter e = h | None \<Rightarrow> False)"

definition task_ok ::
  "'w service \<Rightarrow> (string \<times> entry) list \<Rightarrow> event list \<Rightarrow> ctx \<times> pc \<Rightarrow> bool" where
  "task_ok svc pool evs t =
     (case snd t of
        Start \<Rightarrow> True
      | Disconnecting h k opts e rest \<Rightarrow> False
      | Connect h k opts \<Rightarrow>
          k = tenant_key svc (fst t) \<and> holds pool k h \<and> h \<in> set (created_for k evs)
      | Done r \<Rightarrow> (case r of Inl err \<Rightarrow> True | Inr h \<Rightarrow> holds pool (tenant_key svc (fst t)) h))"

definition key_ok ::
  "'w state \<Rightarrow> 'w state \<Rightarrow> (ctx \<times> pc) list \<Rightarrow> event list \<Rightarrow> string \<Rightarrow> bool" where
  "key_ok s0 s ts evs k =
     (length (connecting_for k ts) \<le> length (created_for k evs)
      \<and> length (created_for k evs) \<le> 1
      \<and> (\<forall>h \<in> set (created_for k evs). holds (adapters s) k h)
      \<and> (map_of (adapters s0) k \<noteq> None
           \<longrightarrow> created_for k evs = [] \<and> map_of (adapters s) k \<noteq> None))"

definition acquire_inv ::
  "'w service \<Rightarrow> 'w state \<Rightarrow> ctx list \<Rightarrow> 'w conf \<Rightarrow> event list \<Rightarrow> bool" where
  "acquire_inv svc s0 cs cf evs =
     (trace (shared cf) = trace s0 @ evs
      \<and> map fst (tasks cf) = cs
      \<and> pool_has_room svc (shared cf) cs
      \<and> (\<forall>t \<in> set (tasks cf). task_ok svc (adapters (shared cf)) evs t)
      \<and> (\<forall>k. key_ok s0 (shared cf) (tasks cf) evs k)
      \<and> (\<forall>h. 0 < connect_calls h evs \<longrightarrow> (\<exists>k. h \<in> set (created_for k evs))))"

definition connects :: "string \<Rightarrow> ctx \<times> pc \<Rightarrow> bool" where
  "connects k t = (case snd t of Connect h k' adapterOpts \<Rightarrow> k' = k | _ \<Rightarrow> False)"


section \<open>An example service\<close>

text \<open>
  A service with concrete collaborators, on which the properties below are run: a store
  of two posts, an adapter whose \<open>find\<close> filters the store by the query, identifiers
  that are encoded by adding 1000, one default scope, and an outside world that is the
  number of connection attempts that will still fail.
\<close>

definition demo_store :: "jv list" where
  "demo_store =
     [JObj [(''_id'', JNum 1), (''title'', JStr ''first''), (''active'', JBool True)],
      JObj [(''_id'', JNum 2), (''title'', JStr ''second''), (''active'', JBool False)]]"

definition field_matches :: "jv \<Rightarrow> jv \<Rightarrow> bool" where
  "field_matches cond v =
     (case cond of
        JObj kvs \<Rightarrow> (case obj_get kvs ''$in'' of JArr xs \<Rightarrow> List.member xs v | _ \<Rightarrow> False)
      | _ \<Rightarrow> v = cond)"

definition matches :: "jv \<Rightarrow> jv \<Rightarrow> bool" where
  "matches q e = list_all (\<lambda>kv. field_matches (snd kv) (obj_get (js_entries e) (fst kv))) (js_entries q)"

definition demo_encode :: "jv \<Rightarrow> jv" where
  "demo_encode i = (case i of JNum n \<Rightarrow> JNum (n + 1000) | _ \<Rightarrow> i)"

definition demo_decode :: "jv \<Rightarrow> jv" where
  "demo_decode i = (case i of JNum n \<Rightarrow> JNum (n - 1000) | _ \<Rightarrow> i)"

definition demo_public :: "jv \<Rightarrow> jv" where
  "demo_public e =
     (case e of
        JObj kvs \<Rightarrow> JObj ((''id'', demo_encode (obj_get kvs ''_id'')) # obj_del kvs ''_id'')
      | _ \<Rightarrow> e)"

definition demo_transform :: "nat \<Rightarrow> jv \<Rightarrow> jobj \<Rightarrow> ctx \<Rightarrow> error + jv" where
  "demo_transform h v p c =
     Inr (case v of JArr xs \<Rightarrow> JArr (map demo_public xs) | _ \<Rightarrow> demo_public v)"

definition demo_api :: "nat adapter_api" where
  "demo_api =
     \<lparr>adapter_connect =
        (\<lambda>h w. if w > 0 then (Inl (External ''ECONNREFUSED''), w - 1) else (Inr (), w)),
      adapter_disconnect = (\<lambda>h. Some (\<lambda>w. (Inr (), w))),
      adapter_find =
        (\<lambda>h p w. (Inr (Some (filter (matches (obj_get p ''query'')) demo_store)), w)),
      adapter_insert = (\<lambda>h p w. (Inr (JObj p), w)),
      adapter_insertMany = (\<lambda>h ps callOpts w. (Inr (JArr (map JObj ps)), w)),
      adapter_updateById = (\<lambda>h i p callOpts w. (Inr (JObj (obj_set p ''_id'' i)), w)),
      adapter_replaceById = (\<lambda>h i p w. (Inr (JObj (obj_set p ''_id'' i)), w)),
      adapter_removeById = (\<lambda>h i w. (Inr i, w)),
      adapter_clear = (\<lambda>h p w. (Inr (JNum 2), w)),
      hasNestedFieldSupport = (\<lambda>h. JBool False)\<rparr>"

definition demo_opts :: mixin_opts where
  "demo_opts =
     \<lparr>cache = Some \<lparr>enabled = True, eventType = Some BroadcastEvent, eventName = None\<rparr>,
      maximumAdapters = Some 2,
      autoReconnect = True,
      entityChangedEventType = Some BroadcastEvent,
      adapterDef = JStr ''NeDB''\<rparr>"

definition demo_fields :: "field list" where
  "demo_fields =
     [\<lparr>name = ''id'', columnName = ''_id'', secure = True\<rparr>,
      \<lparr>name = ''title'', columnName = ''title'', secure = False\<rparr>,
      \<lparr>name = ''active'', columnName = ''active'', secure = False\<rparr>]"

definition demo_service :: "nat service" where
  "demo_service =
     \<lparr>mixinOpts = demo_opts,
      svc_name = ''posts'',
      primaryField = \<lparr>name = ''id'', columnName = ''_id'', secure = True\<rparr>,
      svc_fields = demo_fields,
      softDelete = False,
      defaultScopes = Some [''onlyActive''],
      scopes = (\<lambda>n. if n = ''onlyActive'' then Some (ScopeStatic (JObj [(''active'', JBool True)]))
                     else None),
      hook_adapterConnected = None,
      hook_adapterDisconnected = None,
      hook_afterResolveEntities = None,
      method_getAdapterByContext =
        (\<lambda>c d. case c of NoContext \<Rightarrow> (''default'', d) | Context n \<Rightarrow> (''tenant-'' @ dec n, d)),
      method_encodeID = demo_encode,
      method_decodeID = demo_decode,
      checkScopeAuthority = (\<lambda>c n sc. case n of JNull \<Rightarrow> c = Context 1 | _ \<Rightarrow> True),
      validateParams = (\<lambda>c p validateOpts. Inr p),
      transformResult = demo_transform,
      api = demo_api\<rparr>"

definition demo_state :: "nat \<Rightarrow> nat state" where
  "demo_state w = \<lparr>adapters = [], world = w, trace = [], clock = 0, nextAdapter = 0\<rparr>"

text \<open>Three tenants registered at the times 1, 2 and 3, in a pool whose maximum is 2.\<close>

definition demo_three :: "nat state" where
  "demo_three =
     registerAdapter ''C''
       ((registerAdapter ''B''
           ((registerAdapter ''A'' ((demo_state 0)\<lparr>clock := 1\<rparr>))\<lparr>clock := 2\<rparr>))\<lparr>clock := 3\<rparr>)"

definition demo_three_after :: "nat state" where
  "demo_three_after =
     (case maintenanceAdapters demo_service demo_three of Some (r, s) \<Rightarrow> s | None \<Rightarrow> demo_three)"

text \<open>The same service with a maximum of 0, and a pool of one adapter.\<close>

definition demo_unbounded :: "nat service" where
  "demo_unbounded = demo_service\<lparr>mixinOpts := demo_opts\<lparr>maximumAdapters := Some 0\<rparr>\<rparr>"

definition demo_one :: "nat state" where
  "demo_one = registerAdapter ''A'' (demo_state 0)"

text \<open>The same service without reconnection, and one whose adapter never connects.\<close>

definition demo_noretry :: "nat service" where
  "demo_noretry = demo_service\<lparr>mixinOpts := demo_opts\<lparr>autoReconnect := False\<rparr>\<rparr>"

definition demo_dead :: "nat service" where
  "demo_dead =
     demo_service\<lparr>api := demo_api\<lparr>adapter_connect := (\<lambda>h w. (Inl (External ''ECONNREFUSED''), w))\<rparr>\<rparr>"

text \<open>The same service with the cache switched off; the lifecycle events stay on.\<close>

definition demo_nocache :: "nat service" where
  "demo_nocache =
     demo_service\<lparr>mixinOpts :=
       demo_opts\<lparr>cache := Some \<lparr>enabled = False, eventType = Some BroadcastEvent, eventName = None\<rparr>\<rparr>\<rparr>"


text \<open>The same service with a maximum of 1, and three concurrent calls of two tenants.\<close>

definition demo_single :: "nat service" where
  "demo_single = demo_service\<lparr>mixinOpts := demo_opts\<lparr>maximumAdapters := Some 1\<rparr>\<rparr>"

definition demo_calls :: "nat conf" where
  "demo_calls = \<lparr>shared = demo_state 0, tasks = calls [Context 1, Context 2, Context 1]\<rparr>"

text \<open>
  The three calls run in turn, each up to its next \<open>await\<close>, until all have settled: in
  the pool of two adapters, and in the pool of one.
\<close>

definition demo_settled :: "nat conf" where
  "demo_settled = run_schedule demo_service [0, 1, 2, 0, 1, 2] demo_calls"

definition demo_evicted :: "nat conf" where
  "demo_evicted = run_schedule demo_single [0, 1, 2, 0, 1, 2, 0, 1, 2] demo_calls"

section \<open>Properties of the Field Name Translator\<close>

text \<open>
  The memo table only repeats the lookup in \<open>$fields\<close>: from a sound table the method
  returns what \<open>columnNameOf\<close> returns and leaves a sound table.  The rest of the model
  uses \<open>columnNameOf\<close>.
\<close>

lemma memo_result:
  "u_getColumnNameFromFieldName c flds n =
     (if c n \<noteq> None \<and> the (c n) \<noteq> [] then (the (c n), c)
      else (columnNameOf flds n,
            if find (\<lambda>f. name f = n) flds = None then c else c(n \<mapsto> columnNameOf flds n)))"
  by (simp add: u_getColumnNameFromFieldName_def columnNameOf_def Let_def split: option.splits)

lemma memo_sound:
  assumes "cache_sound c flds" and "u_getColumnNameFromFieldName c flds n = (r, c')"
  shows "r = columnNameOf flds n \<and> cache_sound c' flds"
proof (cases "c n \<noteq> None \<and> the (c n) \<noteq> []")
  case True
  then obtain v where "c n = Some v" by auto
  with assms True show ?thesis by (auto simp: memo_result cache_sound_def)
next
  case False
  with assms show ?thesis
    by (auto simp: memo_result cache_sound_def split: if_splits)
qed

definition str_valued :: "jobj \<Rightarrow> bool" where
  "str_valued kvs = (\<forall>(k, v) \<in> set kvs. \<exists>s. v = JStr s)"

lemma obj_get_str_valued: "str_valued res \<Longrightarrow> \<not> isPlainObject (obj_get res k)"
  by (auto simp: str_valued_def obj_get_def isPlainObject_def split: option.splits dest!: map_of_SomeD)

lemma str_valued_obj_set: "str_valued res \<Longrightarrow> str_valued (obj_set res k (JStr s))"
  by (induction res k "JStr s" rule: obj_set.induct) (auto simp: str_valued_def)

lemma foldl_query_step_str:
  "str_valued res \<Longrightarrow> str_valued es \<Longrightarrow>
   foldl (query_step flds r1 f1) (Inr res) es = foldl (query_step flds r2 f2) (Inr res) es"
proof (induction es arbitrary: res)
  case Nil
  then show ?case by simp
next
  case (Cons e es)
  obtain k s where e: "e = (k, JStr s)" using Cons.prems(2) by (cases e) (auto simp: str_valued_def)
  have tl: "str_valued es" using Cons.prems(2) by (simp add: str_valued_def)
  have step: "\<And>r f. query_step flds r f (Inr res) e = Inr (obj_set res (columnNameOf flds k) (JStr s))"
    using obj_get_str_valued [OF Cons.prems(1)] by (simp add: query_step_def e)
  show ?case
    using Cons.IH [OF str_valued_obj_set [OF Cons.prems(1)] tl] by (simp add: step)
qed

lemma str_valued_entries: "str_valued (js_entries (JStr s))"
  by (auto simp: str_valued_def js_entries_def dest!: set_zip_rightD)

lemma u_queryFieldNameConversion_string:
  "u_queryFieldNameConversion flds (JStr s) recursive =
     foldl (query_step flds recursive (\<lambda>v. u_queryFieldNameConversion flds v recursive))
       (Inr []) (js_entries (JStr s))"
  using foldl_query_step_str [of "[]" "js_entries (JStr s)"] str_valued_entries
  by (simp add: str_valued_def)

lemma u_queryFieldNameConversion_unfold:
  "\<not> is_nullish query \<Longrightarrow>
   u_queryFieldNameConversion flds query recursive =
     foldl (query_step flds recursive (\<lambda>v. u_queryFieldNameConversion flds v recursive))
       (Inr []) (js_entries query)"
  by (cases query) (simp_all add: is_nullish_def u_queryFieldNameConversion_string del: u_queryFieldNameConversion.simps(3))

text \<open>
  Claim C4.  Field-name translation of a query is meant to descend into a nested plain
  object, so that its keys are translated too.  The source tests the entry of the result
  under construction instead of the value of the query, so a nested object is copied as
  it is: below, the key \<open>id\<close> becomes \<open>_id\<close> at the top of the query, and stays \<open>id\<close>
  inside the object under \<open>author\<close>.
\<close>

theorem nested_query_keys_not_translated:
  "u_queryFieldNameConversion [\<lparr>name = ''id'', columnName = ''_id'', secure = False\<rparr>]
     (JObj [(''id'', JNum 5), (''author'', JObj [(''id'', JNum 3)])]) True
   = Inr [(''_id'', JNum 5), (''author'', JObj [(''id'', JNum 3)])]"
  by (simp add: js_entries_def query_step_def columnNameOf_def obj_get_def isPlainObject_def)

section \<open>Properties of the Adapter Pool Manager\<close>

lemma bnd_ret [simp]: "bnd (ret x) f s = f x s"
  by (simp add: bnd_def ret_def)

lemma bnd_throw [simp]: "bnd (throw e) f s = Some (Inl e, s)"
  by (simp add: bnd_def throw_def)

lemma bnd_Some:
  "bnd m f s = Some (r, s') \<longleftrightarrow>
     (\<exists>e. m s = Some (Inl e, s') \<and> r = Inl e) \<or>
     (\<exists>x s1. m s = Some (Inr x, s1) \<and> f x s1 = Some (r, s'))"
  by (auto simp: bnd_def split: option.splits sum.splits prod.splits)

lemma bnd_None:
  "bnd m f s = None \<longleftrightarrow> m s = None \<or> (\<exists>x s1. m s = Some (Inr x, s1) \<and> f x s1 = None)"
  by (auto simp: bnd_def split: option.splits sum.splits prod.splits)

lemma pool_wf_filter: "pool_wf p \<Longrightarrow> pool_wf (filter P p)"
  by (auto simp: pool_wf_def distinct_map_filter)

lemma find_adapter_None:
  "find (\<lambda>it. adapter it = h) (map snd p) = None \<Longrightarrow> filter (\<lambda>(k, e). adapter e \<noteq> h) p = p"
  by (induction p) (auto split: if_splits)

lemma find_adapter_Some:
  assumes "pool_wf p" and "find (\<lambda>it. adapter it = h) (map snd p) = Some it"
  shows "filter (\<lambda>(k, _). k \<noteq> hash it) p = filter (\<lambda>(k, e). adapter e \<noteq> h) p"
proof -
  from assms(2) have it: "it \<in> snd ` set p" "adapter it = h"
    by (auto simp: find_Some_iff)
  then obtain k0 where k0: "(k0, it) \<in> set p" by auto
  with assms(1) have hk: "hash it = k0" by (auto simp: pool_wf_def)
  have "\<And>k e. (k, e) \<in> set p \<Longrightarrow> (k \<noteq> hash it) = (adapter e \<noteq> h)"
  proof -
    fix k e assume ke: "(k, e) \<in> set p"
    show "(k \<noteq> hash it) = (adapter e \<noteq> h)"
    proof (cases "k = k0")
      case True
      with ke k0 assms(1) have "e = it"
        by (auto simp: pool_wf_def dest: eq_key_imp_eq_value)
      with True hk it show ?thesis by simp
    next
      case False
      have "adapter e \<noteq> h"
      proof
        assume "adapter e = h"
        with it have "(\<lambda>(k, e). adapter e) (k, e) = (\<lambda>(k, e). adapter e) (k0, it)" by simp
        with assms(1) ke k0 have "(k, e) = (k0, it)"
          unfolding pool_wf_def by (meson distinct_map inj_onD)
        with False show False by simp
      qed
      with False hk show ?thesis by simp
    qed
  qed
  then show ?thesis by (intro filter_cong) auto
qed

lemma disconnect_async_adapters:
  "disconnect_async svc h k s = Some (r, s') \<Longrightarrow> adapters s' = adapters s"
  by (auto simp: disconnect_async_def bnd_Some call_adapter_def call_ext_def ret_def
      split: option.splits prod.splits)

lemma disconnect_sync_adapters:
  assumes "pool_wf (adapters s)"
  shows "adapters (disconnect_sync h s) = filter (\<lambda>(k, e). adapter e \<noteq> h) (adapters s)"
  using find_adapter_None [of h "adapters s"] find_adapter_Some [OF assms, of h]
  by (cases "find (\<lambda>item. adapter item = h) (map snd (adapters s))")
    (auto simp: disconnect_sync_def)

lemma u_disconnect_adapters:
  assumes "pool_wf (adapters s)" and "u_disconnect svc h k s = Some (Inr u, s')"
  shows "adapters s' = filter (\<lambda>(k, e). adapter e \<noteq> h) (adapters s)"
  using assms disconnect_async_adapters [of svc h k "disconnect_sync h s"]
  by (simp add: u_disconnect_def disconnect_sync_adapters)

lemma for_each_disconnect_adapters:
  "pool_wf (adapters s) \<Longrightarrow>
   for_each es (\<lambda>e. u_disconnect svc (adapter e) (hash e)) s = Some (Inr u, s') \<Longrightarrow>
   adapters s' = filter (\<lambda>(k, e). adapter e \<notin> adapter ` set es) (adapters s)"
proof (induction es arbitrary: s)
  case Nil
  then show ?case by (simp add: ret_def)
next
  case (Cons e es)
  from Cons.prems(2) obtain s1 where
    d: "u_disconnect svc (adapter e) (hash e) s = Some (Inr (), s1)" and
    r: "for_each es (\<lambda>e. u_disconnect svc (adapter e) (hash e)) s1 = Some (Inr u, s')"
    by (auto simp: bnd_Some)
  have a1: "adapters s1 = filter (\<lambda>(k, x). adapter x \<noteq> adapter e) (adapters s)"
    using u_disconnect_adapters [OF Cons.prems(1) d] .
  then have "pool_wf (adapters s1)" using Cons.prems(1) by (simp add: pool_wf_filter)
  from Cons.IH [OF this r] a1 show ?case
    by (auto intro!: filter_cong)
qed

lemma pool_wf_values:
  assumes "pool_wf p"
  shows "distinct (map snd p)" and "inj_on adapter (snd ` set p)"
proof -
  have d: "distinct (map adapter (map snd p))"
    using assms by (simp add: pool_wf_def case_prod_unfold comp_def)
  then have both: "distinct (map snd p) \<and> inj_on adapter (set (map snd p))"
    by (simp only: distinct_map)
  then show "distinct (map snd p)" by blast
  from both show "inj_on adapter (snd ` set p)" by simp
qed

lemma take_sorted_le_drop:
  assumes "e \<in> set (take n (sort_key f xs))" and "r \<in> set xs" and "r \<notin> set (take n (sort_key f xs))"
  shows "f e \<le> f r"
proof -
  let ?ys = "sort_key f xs"
  have "r \<in> set ?ys" using assms(2) by simp
  then have "r \<in> set (take n ?ys) \<union> set (drop n ?ys)"
    by (metis append_take_drop_id set_append)
  with assms(3) have rd: "r \<in> set (drop n ?ys)" by simp
  have "sorted (map f (take n ?ys) @ map f (drop n ?ys))"
    by (metis append_take_drop_id map_append sorted_sort_key)
  then show ?thesis using assms(1) rd by (auto simp: sorted_append)
qed

lemma length_filter_notin:
  assumes "distinct xs" and "distinct ys" and "set ys \<subseteq> set xs"
  shows "length (filter (\<lambda>x. x \<notin> set ys) xs) = length xs - length ys"
proof -
  have "length (filter (\<lambda>x. x \<notin> set ys) xs) = card ({x. x \<notin> set ys} \<inter> set xs)"
    using assms(1) by (rule distinct_length_filter)
  also have "{x. x \<notin> set ys} \<inter> set xs = set xs - set ys" by auto
  also have "card (set xs - set ys) = card (set xs) - card (set ys)"
    using assms(3) by (simp add: card_Diff_subset)
  finally show ?thesis using assms(1,2) by (simp add: distinct_card)
qed

lemma closeable_entries_bounded:
  assumes "maximumAdapters (mixinOpts svc) = Some m" and "1 \<le> m"
  shows "closeable_entries svc s =
           take (nat (int (length (adapters s)) - m)) (sort_key touched (map snd (adapters s)))"
  using assms by (simp add: closeable_entries_def Let_def)

lemma maintenance_result:
  assumes wf: "pool_wf (adapters s)"
    and mx: "maximumAdapters (mixinOpts svc) = Some m" and m1: "1 \<le> m"
    and run: "maintenanceAdapters svc s = Some (Inr (), s')"
  shows "adapters s' =
           filter (\<lambda>(k, e). e \<notin> set (take (nat (int (length (adapters s)) - m))
                                         (sort_key touched (map snd (adapters s)))))
             (adapters s)"
proof -
  let ?cl = "take (nat (int (length (adapters s)) - m)) (sort_key touched (map snd (adapters s)))"
  have "for_each ?cl (\<lambda>e. u_disconnect svc (adapter e) (hash e)) s = Some (Inr (), s')"
    using run closeable_entries_bounded [OF mx m1, of s] by (simp add: maintenanceAdapters_def)
  from for_each_disconnect_adapters [OF wf this]
  have a: "adapters s' = filter (\<lambda>(k, e). adapter e \<notin> adapter ` set ?cl) (adapters s)" .
  have sub: "set ?cl \<subseteq> snd ` set (adapters s)"
    using set_take_subset [of "nat (int (length (adapters s)) - m)" "sort_key touched (map snd (adapters s))"]
    by auto
  have "\<And>k e. (k, e) \<in> set (adapters s) \<Longrightarrow> (adapter e \<notin> adapter ` set ?cl) = (e \<notin> set ?cl)"
  proof -
    fix k e assume "(k, e) \<in> set (adapters s)"
    then have e: "e \<in> snd ` set (adapters s)" by force
    show "(adapter e \<notin> adapter ` set ?cl) = (e \<notin> set ?cl)"
      using inj_on_image_mem_iff [OF pool_wf_values(2) [OF wf] e sub] by simp
  qed
  then have "filter (\<lambda>(k, e). adapter e \<notin> adapter ` set ?cl) (adapters s) =
             filter (\<lambda>(k, e). e \<notin> set ?cl) (adapters s)"
    by (intro filter_cong) auto
  with a show ?thesis by simp
qed

text \<open>
  Claim C5 (as amended).  With a maximum \<open>m\<close> of at least 1, after a maintenance pass
  that ran to its end the pool holds at most \<open>m\<close> entries; the evicted entries are the
  first \<open>size - m\<close> of the entries sorted by \<open>touched\<close>, none of them was touched
  later than an entry that stays, and the entries that stay are all the others, in their
  old order.  (A maximum below 1 switches the pass off: see the counterexample.)
\<close>

theorem maintenance_keeps_most_recent:
  assumes wf: "pool_wf (adapters s)"
    and mx: "maximumAdapters (mixinOpts svc) = Some m" and m1: "1 \<le> m"
    and run: "maintenanceAdapters svc s = Some (Inr (), s')"
  shows "let surplus = nat (int (length (adapters s)) - m);
             evicted = take surplus (sort_key touched (map snd (adapters s)))
         in int (length (adapters s')) \<le> m
          \<and> length evicted = surplus
          \<and> adapters s' = filter (\<lambda>(k, e). e \<notin> set evicted) (adapters s)
          \<and> (\<forall>e \<in> set evicted. \<forall>(k, r) \<in> set (adapters s'). touched e \<le> touched r)"
proof -
  let ?n = "nat (int (length (adapters s)) - m)"
  let ?es = "map snd (adapters s)"
  let ?cl = "take ?n (sort_key touched ?es)"
  have res: "adapters s' = filter (\<lambda>(k, e). e \<notin> set ?cl) (adapters s)"
    using maintenance_result [OF wf mx m1 run] .
  have len_cl: "length ?cl = ?n" using m1 by simp
  have d_es: "distinct ?es" using pool_wf_values(1) [OF wf] .
  have d_cl: "distinct ?cl" using d_es by (simp add: distinct_take)
  have sub: "set ?cl \<subseteq> set ?es"
    using set_take_subset [of ?n "sort_key touched ?es"] by simp
  have "map snd (adapters s') = filter (\<lambda>e. e \<notin> set ?cl) ?es"
    by (simp add: res filter_map comp_def case_prod_unfold)
  then have "length (adapters s') = length (filter (\<lambda>e. e \<notin> set ?cl) ?es)"
    by (metis length_map)
  also have "\<dots> = length ?es - length ?cl"
    using length_filter_notin [OF d_es d_cl sub] .
  finally have len: "int (length (adapters s')) \<le> m" using len_cl by simp
  have ord: "\<forall>e \<in> set ?cl. \<forall>(k, r) \<in> set (adapters s'). touched e \<le> touched r"
  proof (intro ballI, clarify)
    fix e k r assume e: "e \<in> set ?cl" and r: "(k, r) \<in> set (adapters s')"
    from r res have "(k, r) \<in> set (adapters s)" "r \<notin> set ?cl" by auto
    then have "r \<in> set ?es" "r \<notin> set ?cl" by force+
    with e show "touched e \<le> touched r" by (rule take_sorted_le_drop)
  qed
  show ?thesis using len len_cl res ord by (simp add: Let_def)
qed

lemma timeouts_append [simp]: "timeouts (xs @ ys) = timeouts xs @ timeouts ys"
  by (simp add: timeouts_def)

lemma connect_calls_append [simp]: "connect_calls h (xs @ ys) = connect_calls h xs + connect_calls h ys"
  by (simp add: connect_calls_def)

lemma connect_attempt_trace:
  assumes "connect_attempt svc h k opts s = Some (r, s1)"
  shows "\<exists>out. trace s1 = trace s @ [AdapterCall h ConnectReq out]"
  using assms
  by (auto simp: connect_attempt_def bnd_Some call_adapter_def call_ext_def ret_def
      split: prod.splits option.splits)

lemma connect_attempt_obs:
  assumes "connect_attempt svc h k opts s = Some (r, s1)"
  shows "timeouts (trace s1) = timeouts (trace s)"
    and "connect_calls h (trace s1) = Suc (connect_calls h (trace s))"
  using connect_attempt_trace [OF assms] by (auto simp: timeouts_def connect_calls_def)

lemma connect_fail_once:
  assumes "\<not> autoReconnect (mixinOpts svc)"
    and "connect_attempt svc h k opts s = Some (Inl err, s1)"
  shows "u_connect svc h k opts s = Some (Inl err, s1)"
  using assms by (simp add: u_connect_def connecting.simps)

lemma connect_retry_step:
  assumes "autoReconnect (mixinOpts svc)"
    and "connect_attempt svc h k opts s = Some (Inl err, s1)"
  shows "u_connect svc h k opts s = u_connect svc h k opts (setTimeout 1000 s1)"
  unfolding u_connect_def using assms by (subst connecting.simps) simp

lemma connect_success:
  assumes "connect_attempt svc h k opts s = Some (Inr u, s1)"
  shows "u_connect svc h k opts s = Some (Inr (), s1)"
  unfolding u_connect_def using assms by (subst connecting.simps) simp

lemma setTimeout_obs [simp]:
  "timeouts (trace (setTimeout d s)) = timeouts (trace s) @ [d]"
  "connect_calls h (trace (setTimeout d s)) = connect_calls h (trace s)"
  by (simp_all add: setTimeout_def timeouts_def connect_calls_def)

lemma connect_after_failures:
  "autoReconnect (mixinOpts svc) \<Longrightarrow>
   failed_attempts svc h k opts n s = Some sn \<Longrightarrow>
   connect_attempt svc h k opts sn = Some (Inr u, s') \<Longrightarrow>
   u_connect svc h k opts s = Some (Inr (), s')
   \<and> timeouts (trace s') = timeouts (trace s) @ replicate n 1000
   \<and> connect_calls h (trace s') = connect_calls h (trace s) + Suc n"
proof (induction n arbitrary: s)
  case 0
  then show ?case using connect_success [of svc h k opts s u s'] connect_attempt_obs [of svc h k opts s "Inr u" s']
    by simp
next
  case (Suc n)
  from Suc.prems(2) obtain err s1 where
    f: "connect_attempt svc h k opts s = Some (Inl err, s1)" and
    r: "failed_attempts svc h k opts n (setTimeout 1000 s1) = Some sn"
    by (auto split: option.splits sum.splits prod.splits)
  from Suc.IH [OF Suc.prems(1) r Suc.prems(3)] connect_retry_step [OF Suc.prems(1) f]
    connect_attempt_obs [OF f]
  show ?case by (simp add: replicate_append_same)
qed

lemma always_fails_step:
  assumes "always_fails svc h k opts s"
  shows "\<exists>err s1. connect_attempt svc h k opts s = Some (Inl err, s1) \<and>
           always_fails svc h k opts (setTimeout 1000 s1)"
proof -
  from assms [unfolded always_fails_def, rule_format, of 0]
  obtain err s1 where f: "connect_attempt svc h k opts s = Some (Inl err, s1)" by auto
  have "always_fails svc h k opts (setTimeout 1000 s1)"
    unfolding always_fails_def
  proof
    fix n
    from assms [unfolded always_fails_def, rule_format, of "Suc n"] f
    show "\<exists>sn err s1'. failed_attempts svc h k opts n (setTimeout 1000 s1) = Some sn \<and>
        connect_attempt svc h k opts sn = Some (Inl err, s1')" by simp
  qed
  with f show ?thesis by blast
qed

lemma connecting_never:
  assumes "connecting svc h k opts s = Some y"
  shows "autoReconnect (mixinOpts svc) \<longrightarrow> \<not> always_fails svc h k opts s"
proof (rule connecting.raw_induct
    [where P = "\<lambda>svc h k opts s y. autoReconnect (mixinOpts svc) \<longrightarrow> \<not> always_fails svc h k opts s",
      OF _ assms], goal_cases)
  case (1 retry svc h k opts s y)
  show ?case
  proof (intro impI notI)
    assume ar: "autoReconnect (mixinOpts svc)" and af: "always_fails svc h k opts s"
    from always_fails_step [OF af] obtain err s1 where
      f: "connect_attempt svc h k opts s = Some (Inl err, s1)" and
      af': "always_fails svc h k opts (setTimeout 1000 s1)" by blast
    from 1(2) f ar have "retry svc h k opts (setTimeout 1000 s1) = Some y" by simp
    from 1(1) [OF this] ar af' show False by simp
  qed
qed

lemma connect_never_settles:
  assumes "autoReconnect (mixinOpts svc)" and "always_fails svc h k opts s"
  shows "u_connect svc h k opts s = None"
  using assms connecting_never [of svc h k opts s] by (cases "connecting svc h k opts s") (auto simp: u_connect_def)

lemma getAdapter_new:
  assumes "method_getAdapterByContext svc c (adapterDef (mixinOpts svc)) = (k, opts)"
    and "map_of (adapters s) k = None"
    and "maintenanceAdapters svc (registerAdapter k s) = Some (Inr u, s0)"
  shows "getAdapter svc c s =
           (case u_connect svc (nextAdapter s) k opts s0 of
              None \<Rightarrow> None
            | Some (Inl e, s1) \<Rightarrow> Some (Inl e, s1)
            | Some (Inr _, s1) \<Rightarrow> Some (Inr (nextAdapter s), s1))"
  using assms by (simp add: getAdapter_def bnd_def ret_def split: option.splits sum.splits prod.splits)

theorem maintenance_keeps_most_recent_witness:
  "map fst (adapters demo_three) = [''A'', ''B'', ''C'']
   \<and> map fst (adapters demo_three_after) = [''B'', ''C'']
   \<and> int (length (adapters demo_three_after)) \<le> 2"
proof -
  have wf: "pool_wf (adapters demo_three)" by code_simp
  have mx: "maximumAdapters (mixinOpts demo_service) = Some 2" by code_simp
  have m1: "(1::int) \<le> 2" by simp
  have run: "maintenanceAdapters demo_service demo_three = Some (Inr (), demo_three_after)"
    by code_simp
  have before: "map fst (adapters demo_three) = [''A'', ''B'', ''C'']" by code_simp
  have after: "map fst (adapters demo_three_after) = [''B'', ''C'']" by code_simp
  have "int (length (adapters demo_three_after)) \<le> 2"
    using maintenance_keeps_most_recent [OF wf mx m1 run] unfolding Let_def by (rule conjunct1)
  with before after show ?thesis by blast
qed

theorem maintenance_zero_maximum_counterexample:
  "maximumAdapters (mixinOpts demo_unbounded) = Some 0
   \<and> maintenanceAdapters demo_unbounded demo_one = Some (Inr (), demo_one)
   \<and> \<not> int (length (adapters demo_one)) \<le> 0"
  by code_simp

text \<open>
  Claim C6.  An acquire for a tenant key that is not in the pool registers a new adapter,
  runs the maintenance pass and then connects.  Without \<open>autoReconnect\<close>, a first
  attempt that fails with \<open>err\<close> makes the acquire fail with \<open>err\<close>.  With
  \<open>autoReconnect\<close>, after any number \<open>n\<close> of failed attempts followed by a
  successful one the acquire returns the adapter, having made \<open>n + 1\<close> attempts and
  started \<open>n\<close> timers, each of 1000 milliseconds; and when every attempt fails the
  acquire never settles.
\<close>

theorem acquire_connect_retry:
  assumes key: "method_getAdapterByContext svc c (adapterDef (mixinOpts svc)) = (k, opts)"
    and new: "map_of (adapters s) k = None"
    and maint: "maintenanceAdapters svc (registerAdapter k s) = Some (Inr (), s0)"
  shows "(\<not> autoReconnect (mixinOpts svc)
            \<and> connect_attempt svc (nextAdapter s) k opts s0 = Some (Inl err, s1)
          \<longrightarrow> getAdapter svc c s = Some (Inl err, s1))
       \<and> (autoReconnect (mixinOpts svc)
            \<and> failed_attempts svc (nextAdapter s) k opts n s0 = Some sn
            \<and> connect_attempt svc (nextAdapter s) k opts sn = Some (Inr (), s')
          \<longrightarrow> getAdapter svc c s = Some (Inr (nextAdapter s), s')
              \<and> timeouts (trace s') = timeouts (trace s0) @ replicate n 1000
              \<and> connect_calls (nextAdapter s) (trace s')
                  = connect_calls (nextAdapter s) (trace s0) + Suc n)
       \<and> (autoReconnect (mixinOpts svc) \<and> always_fails svc (nextAdapter s) k opts s0
          \<longrightarrow> getAdapter svc c s = None)"
proof (intro conjI impI)
  assume "\<not> autoReconnect (mixinOpts svc)
      \<and> connect_attempt svc (nextAdapter s) k opts s0 = Some (Inl err, s1)"
  then have "u_connect svc (nextAdapter s) k opts s0 = Some (Inl err, s1)"
    using connect_fail_once by blast
  then show "getAdapter svc c s = Some (Inl err, s1)"
    by (simp add: getAdapter_new [OF key new maint])
next
  assume a: "autoReconnect (mixinOpts svc)
      \<and> failed_attempts svc (nextAdapter s) k opts n s0 = Some sn
      \<and> connect_attempt svc (nextAdapter s) k opts sn = Some (Inr (), s')"
  then have r: "u_connect svc (nextAdapter s) k opts s0 = Some (Inr (), s')
     \<and> timeouts (trace s') = timeouts (trace s0) @ replicate n 1000
     \<and> connect_calls (nextAdapter s) (trace s') = connect_calls (nextAdapter s) (trace s0) + Suc n"
    using connect_after_failures by blast
  then show "getAdapter svc c s = Some (Inr (nextAdapter s), s')"
    by (simp add: getAdapter_new [OF key new maint])
  from r show "timeouts (trace s') = timeouts (trace s0) @ replicate n 1000" by blast
  from r show "connect_calls (nextAdapter s) (trace s')
      = connect_calls (nextAdapter s) (trace s0) + Suc n" by blast
next
  assume "autoReconnect (mixinOpts svc) \<and> always_fails svc (nextAdapter s) k opts s0"
  then have "u_connect svc (nextAdapter s) k opts s0 = None"
    using connect_never_settles by blast
  then show "getAdapter svc c s = None"
    by (simp add: getAdapter_new [OF key new maint])
qed

lemma demo_dead_attempt:
  "connect_attempt demo_dead h k opts s =
     Some (Inl (External ''ECONNREFUSED''),
           s\<lparr>trace := trace s @ [AdapterCall h ConnectReq (Failed (External ''ECONNREFUSED''))]\<rparr>)"
  by (simp add: connect_attempt_def bnd_def call_adapter_def demo_dead_def demo_service_def demo_api_def)

lemma demo_dead_failed_attempts:
  "\<exists>sn. failed_attempts demo_dead h k opts n s = Some sn"
  by (induction n arbitrary: s) (simp_all add: demo_dead_attempt)

lemma demo_dead_always_fails: "always_fails demo_dead h k opts s"
  unfolding always_fails_def using demo_dead_failed_attempts demo_dead_attempt by metis

theorem acquire_connect_retry_witness:
  "map_option fst (getAdapter demo_noretry (Context 7) (demo_state 2))
     = Some (Inl (External ''ECONNREFUSED''))
   \<and> map_option fst (getAdapter demo_service (Context 7) (demo_state 2)) = Some (Inr 0)
   \<and> map_option (\<lambda>rs. timeouts (trace (snd rs))) (getAdapter demo_service (Context 7) (demo_state 2))
     = Some [1000, 1000]
   \<and> getAdapter demo_dead (Context 7) (demo_state 0) = None"
proof -
  let ?c = "Context 7" and ?k = "''tenant-7''" and ?opts = "JStr ''NeDB''"
  let ?s = "demo_state 2"
  let ?reg = "registerAdapter ?k ?s"
  text \<open>Without reconnection, the first failure is the result.\<close>
  have key1: "method_getAdapterByContext demo_noretry ?c (adapterDef (mixinOpts demo_noretry)) = (?k, ?opts)"
    by code_simp
  have new: "map_of (adapters ?s) ?k = None" by code_simp
  have maint1: "maintenanceAdapters demo_noretry ?reg = Some (Inr (), ?reg)" by code_simp
  obtain s1 where at1: "connect_attempt demo_noretry (nextAdapter ?s) ?k ?opts ?reg
      = Some (Inl (External ''ECONNREFUSED''), s1)"
    by (simp add: connect_attempt_def bnd_def call_adapter_def demo_noretry_def demo_service_def
        demo_api_def demo_state_def registerAdapter_def)
  have nr: "\<not> autoReconnect (mixinOpts demo_noretry)" by code_simp
  from acquire_connect_retry [OF key1 new maint1, of "External ''ECONNREFUSED''" s1] nr at1
  have w1: "map_option fst (getAdapter demo_noretry ?c ?s) = Some (Inl (External ''ECONNREFUSED''))"
    by simp
  text \<open>With reconnection, two failures and a success take two timers.\<close>
  have key2: "method_getAdapterByContext demo_service ?c (adapterDef (mixinOpts demo_service)) = (?k, ?opts)"
    by code_simp
  have maint2: "maintenanceAdapters demo_service ?reg = Some (Inr (), ?reg)" by code_simp
  have ar: "autoReconnect (mixinOpts demo_service)" by code_simp
  obtain sn where fa: "failed_attempts demo_service (nextAdapter ?s) ?k ?opts 2 ?reg = Some sn"
    and wn: "world sn = 0"
    by (simp add: numeral_2_eq_2 connect_attempt_def bnd_def call_adapter_def demo_service_def
        demo_api_def demo_state_def registerAdapter_def setTimeout_def)
  obtain s' where ok: "connect_attempt demo_service (nextAdapter ?s) ?k ?opts sn = Some (Inr (), s')"
    using wn
    by (simp add: connect_attempt_def bnd_def call_adapter_def demo_service_def demo_api_def ret_def)
  have t0: "timeouts (trace ?reg) = []" by code_simp
  have n0: "nextAdapter ?s = 0" by code_simp
  from acquire_connect_retry [OF key2 new maint2, of _ _ 2 sn s'] ar fa ok t0 n0
  have w2: "map_option fst (getAdapter demo_service ?c ?s) = Some (Inr 0)"
    and w3: "map_option (\<lambda>rs. timeouts (trace (snd rs))) (getAdapter demo_service ?c ?s) = Some [1000, 1000]"
    by (simp_all add: numeral_2_eq_2)
  text \<open>An adapter that never connects keeps the caller waiting.\<close>
  let ?t = "demo_state 0"
  have key3: "method_getAdapterByContext demo_dead ?c (adapterDef (mixinOpts demo_dead)) = (?k, ?opts)"
    by code_simp
  have new3: "map_of (adapters ?t) ?k = None" by code_simp
  have maint3: "maintenanceAdapters demo_dead (registerAdapter ?k ?t) = Some (Inr (), registerAdapter ?k ?t)"
    by code_simp
  have ar3: "autoReconnect (mixinOpts demo_dead)" by code_simp
  from acquire_connect_retry [OF key3 new3 maint3] ar3 demo_dead_always_fails
  have w4: "getAdapter demo_dead ?c ?t = None" by blast
  from w1 w2 w3 w4 show ?thesis by blast
qed

section \<open>What the operations add to the trace\<close>

lemma addsI:
  "(\<And>s r s'. m s = Some (r, s') \<Longrightarrow> \<exists>evs. trace s' = trace s @ evs \<and> list_all P evs) \<Longrightarrow> adds P m"
  by (simp add: adds_def)

lemma addsD:
  "adds P m \<Longrightarrow> m s = Some (r, s') \<Longrightarrow> \<exists>evs. trace s' = trace s @ evs \<and> list_all P evs"
  by (simp add: adds_def)

lemma adds_new_events:
  "adds P m \<Longrightarrow> m s = Some (r, s') \<Longrightarrow> list_all P (new_events s s')"
  by (auto simp: new_events_def dest!: addsD)

lemma adds_ret [simp]: "adds P (ret x)"
  by (rule addsI) (simp add: ret_def)

lemma adds_throw [simp]: "adds P (throw e)"
  by (rule addsI) (simp add: throw_def)

lemma adds_lift_result [simp]: "adds P (lift_result r)"
  by (rule addsI) (simp add: lift_result_def)

lemma adds_call_ext [simp]: "adds P (call_ext f)"
  by (rule addsI) (auto simp: call_ext_def split: prod.splits)

lemma adds_bnd:
  assumes "adds P m" and "\<And>x. adds P (f x)"
  shows "adds P (bnd m f)"
proof (rule addsI)
  fix s r s' assume "bnd m f s = Some (r, s')"
  then consider e where "m s = Some (Inl e, s')"
    | x s1 where "m s = Some (Inr x, s1)" "f x s1 = Some (r, s')"
    by (auto simp: bnd_Some)
  then show "\<exists>evs. trace s' = trace s @ evs \<and> list_all P evs"
  proof cases
    case 1
    then show ?thesis using addsD [OF assms(1)] by blast
  next
    case 2
    from addsD [OF assms(1) 2(1)] obtain e1 where e1: "trace s1 = trace s @ e1" "list_all P e1" by blast
    from addsD [OF assms(2) 2(2)] obtain e2 where e2: "trace s' = trace s1 @ e2" "list_all P e2" by blast
    from e1 e2 have "trace s' = trace s @ (e1 @ e2) \<and> list_all P (e1 @ e2)" by simp
    then show ?thesis by blast
  qed
qed

lemma adds_mono: "adds P m \<Longrightarrow> (\<And>e. P e \<Longrightarrow> Q e) \<Longrightarrow> adds Q m"
  unfolding adds_def by (meson list.pred_mono_strong)

lemma adds_call_adapter:
  assumes "\<And>out. P (AdapterCall h req out)"
  shows "adds P (call_adapter h req out f)"
  by (rule addsI) (auto simp: call_adapter_def assms split: prod.splits)

lemma adds_emit_event: "P e \<Longrightarrow> adds P (emit_event e)"
  by (rule addsI) (auto simp: emit_event_def)

lemma adds_state_change:
  assumes "adds P m" and "\<And>s. \<exists>evs. trace (g s) = trace s @ evs \<and> list_all P evs"
  shows "adds P (\<lambda>s. m (g s))"
proof (rule addsI)
  fix s r s' assume "m (g s) = Some (r, s')"
  from addsD [OF assms(1) this] obtain e2 where e2: "trace s' = trace (g s) @ e2" "list_all P e2" by blast
  from assms(2) [of s] obtain e1 where e1: "trace (g s) = trace s @ e1" "list_all P e1" by blast
  from e1 e2 have "trace s' = trace s @ (e1 @ e2) \<and> list_all P (e1 @ e2)" by simp
  then show "\<exists>evs. trace s' = trace s @ evs \<and> list_all P evs" by blast
qed

lemma adds_disconnect_async: "adds pool_event (disconnect_async svc h k)"
  unfolding disconnect_async_def
  by (intro adds_bnd) (auto simp: pool_event_def intro!: adds_call_adapter split: option.splits)

lemma adds_u_disconnect: "adds pool_event (u_disconnect svc h k)"
  unfolding u_disconnect_def
  by (rule adds_state_change [OF adds_disconnect_async])
    (auto simp: disconnect_sync_def split: option.splits)

lemma adds_for_each: "(\<And>x. adds P (body x)) \<Longrightarrow> adds P (for_each xs body)"
  by (induction xs) (auto intro: adds_bnd)

lemma adds_maintenanceAdapters: "adds pool_event (maintenanceAdapters svc)"
proof (rule addsI)
  fix s r s' assume run: "maintenanceAdapters svc s = Some (r, s')"
  have "adds pool_event (for_each (closeable_entries svc s) (\<lambda>e. u_disconnect svc (adapter e) (hash e)))"
    by (rule adds_for_each) (rule adds_u_disconnect)
  from addsD [OF this] run show "\<exists>evs. trace s' = trace s @ evs \<and> list_all pool_event evs"
    by (simp add: maintenanceAdapters_def)
qed

lemma adds_connect_attempt: "adds pool_event (connect_attempt svc h k opts)"
  unfolding connect_attempt_def
  by (intro adds_bnd adds_call_adapter) (auto simp: pool_event_def split: option.splits)

lemma connecting_trace:
  assumes "connecting svc h k opts s = Some y"
  shows "\<exists>evs. trace (snd y) = trace s @ evs \<and> list_all pool_event evs"
proof (rule connecting.raw_induct
    [where P = "\<lambda>svc h k opts s y. \<exists>evs. trace (snd y) = trace s @ evs \<and> list_all pool_event evs",
      OF _ assms], goal_cases)
  case (1 retry svc h k opts s y)
  from 1(2) obtain r s1 where at: "connect_attempt svc h k opts s = Some (r, s1)"
    by (cases "connect_attempt svc h k opts s") auto
  from addsD [OF adds_connect_attempt at] obtain e1 where
    e1: "trace s1 = trace s @ e1" "list_all pool_event e1" by blast
  show ?case
  proof (cases r)
    case (Inr u)
    with 1(2) at have "y = (Inr (), s1)" by simp
    with e1 show ?thesis by auto
  next
    case (Inl err)
    show ?thesis
    proof (cases "autoReconnect (mixinOpts svc)")
      case False
      with 1(2) at Inl have "y = (Inl err, s1)" by simp
      with e1 show ?thesis by auto
    next
      case True
      with 1(2) at Inl have "retry svc h k opts (setTimeout 1000 s1) = Some y" by simp
      from 1(1) [OF this] obtain e2 where
        e2: "trace (snd y) = trace (setTimeout 1000 s1) @ e2" "list_all pool_event e2" by blast
      from e1 e2 have "trace (snd y) = trace s @ (e1 @ [Timeout 1000] @ e2)
          \<and> list_all pool_event (e1 @ [Timeout 1000] @ e2)"
        by (simp add: setTimeout_def pool_event_def)
      then show ?thesis by blast
    qed
  qed
qed

lemma adds_u_connect: "adds pool_event (u_connect svc h k opts)"
  by (rule addsI) (use connecting_trace in \<open>fastforce simp: u_connect_def\<close>)

lemma adds_getAdapter: "adds pool_event (getAdapter svc c)"
proof (rule addsI)
  fix s r s' assume run: "getAdapter svc c s = Some (r, s')"
  obtain k opts where key: "method_getAdapterByContext svc c (adapterDef (mixinOpts svc)) = (k, opts)"
    by (cases "method_getAdapterByContext svc c (adapterDef (mixinOpts svc))")
  show "\<exists>evs. trace s' = trace s @ evs \<and> list_all pool_event evs"
  proof (cases "map_of (adapters s) k")
    case (Some item)
    with run key have "s' = touchEntry k s" by (simp add: getAdapter_def ret_def)
    then show ?thesis by (simp add: touchEntry_def)
  next
    case None
    let ?m = "bnd (maintenanceAdapters svc)
                (\<lambda>_. bnd (u_connect svc (nextAdapter s) k opts) (\<lambda>_. ret (nextAdapter s)))"
    have "adds pool_event ?m"
      by (intro adds_bnd adds_maintenanceAdapters adds_u_connect adds_ret)
    moreover from run key None have "?m (registerAdapter k s) = Some (r, s')"
      by (simp add: getAdapter_def)
    ultimately obtain e2 where
      e2: "trace s' = trace (registerAdapter k s) @ e2" "list_all pool_event e2"
      by (blast dest: addsD)
    then have "trace s' = trace s @ (AdapterCreated (nextAdapter s) k # e2)
        \<and> list_all pool_event (AdapterCreated (nextAdapter s) k # e2)"
      by (simp add: registerAdapter_def pool_event_def)
    then show ?thesis by blast
  qed
qed

section \<open>Properties of resolveEntities\<close>

lemma map_of_obj_set: "map_of (obj_set p k v) k' = (if k' = k then Some v else map_of p k')"
  by (induction p k v rule: obj_set.induct) auto

lemma obj_get_obj_set [simp]: "obj_get (obj_set p k v) k' = (if k' = k then v else obj_get p k')"
  by (simp add: obj_get_def map_of_obj_set)

lemma convert_if_set_other:
  "convert_if_set p k conv = Inr p' \<Longrightarrow> k' \<noteq> k \<Longrightarrow> obj_get p' k' = obj_get p k'"
  by (auto simp: convert_if_set_def split: if_splits sum.splits)

lemma paramsFieldNameConversion_other:
  assumes "paramsFieldNameConversion svc p = Inr p'"
    and "k \<noteq> ''sort''" "k \<noteq> ''searchFields''" "k \<noteq> ''query''"
  shows "obj_get p' k = obj_get p k"
  using assms
  by (auto simp: paramsFieldNameConversion_def split: sum.splits dest!: convert_if_set_other [where k' = k])

lemma apply_scope_names_other:
  "k \<noteq> ''query'' \<Longrightarrow> obj_get (apply_scope_names svc names p c) k = obj_get p k"
  by (simp add: apply_scope_names_def split: option.splits)

lemma u_applyScopes_other:
  "k \<noteq> ''query'' \<Longrightarrow> obj_get (u_applyScopes svc p c) k = obj_get p k"
  by (simp add: u_applyScopes_def apply_scope_names_other)

lemma resolve_query_Inr:
  assumes "resolve_query svc c params opts = Inr (multi, ids, p)"
  shows "multi = isArray (obj_get params (name (primaryField svc)))"
    and "ids = requested_ids svc params opts"
    and "\<not> is_nullish (obj_get params (name (primaryField svc)))"
    and "k \<noteq> ''sort'' \<Longrightarrow> k \<noteq> ''searchFields'' \<Longrightarrow> k \<noteq> ''query'' \<Longrightarrow> obj_get p k = obj_get params k"
proof -
  let ?i = "obj_get params (name (primaryField svc))"
  let ?p0 = "if \<not> truthy (obj_get params ''query'') then obj_set params ''query'' (JObj []) else params"
  from assms have nn: "\<not> is_nullish ?i"
    by (auto simp: resolve_query_def u_getIDFromParams_def Let_def split: if_splits)
  then have gid: "u_getIDFromParams svc params True = Inr ?i"
    by (simp add: u_getIDFromParams_def Let_def)
  from assms gid obtain p2 q where
    conv: "paramsFieldNameConversion svc (u_applyScopes svc ?p0 c) = Inr p2" and
    q: "obj_get p2 ''query'' = JObj q" and
    res: "(multi, ids, p) =
       (isArray ?i, requested_ids svc params opts,
        obj_set p2 ''query'' (JObj (obj_set q (columnName (primaryField svc))
           (if isArray ?i then JObj [(''$in'', JArr (requested_ids svc params opts))]
            else js_index (requested_ids svc params opts) 0))))"
    by (auto simp: resolve_query_def Let_def requested_ids_def as_array_def isArray_def
        split: sum.splits jv.splits)
  from res show "multi = isArray ?i" by simp
  from res show "ids = requested_ids svc params opts" by simp
  from nn show "\<not> is_nullish ?i" .
  assume k: "k \<noteq> ''sort''" "k \<noteq> ''searchFields''" "k \<noteq> ''query''"
  from res have "obj_get p k = obj_get p2 k" using k by simp
  also have "\<dots> = obj_get (u_applyScopes svc ?p0 c) k"
    using paramsFieldNameConversion_other [OF conv k] .
  also have "\<dots> = obj_get ?p0 k" using k by (simp add: u_applyScopes_other)
  also have "\<dots> = obj_get params k" using k by simp
  finally show "obj_get p k = obj_get params k" .
qed

lemma find_call_run:
  assumes "find_call svc h p s = Some (r, s')"
  shows "trace s' = trace s @ [AdapterCall h (FindReq p) (case r of Inl e \<Rightarrow> Failed e | Inr x \<Rightarrow> Found x)]"
  using assms by (auto simp: find_call_def call_adapter_def split: prod.splits)

lemma resolve_finish_no_match:
  assumes "no_match result"
  shows "resolve_finish svc c origParams opts origID multi ids p h result s =
           Some (if truthy (obj_get opts ''throwIfNotExist'') then Inl (EntityNotFound origID)
                 else Inr (if obj_get p ''mapping'' = JBool True then JObj []
                           else if multi then JArr [] else JNull), s)"
  using assms by (simp add: resolve_finish_def throw_def ret_def)

lemma pool_event_kinds: "pool_event e \<Longrightarrow> \<not> is_find e \<and> \<not> is_write e \<and> \<not> is_emitted e"
  by (auto simp: pool_event_def is_find_def is_write_def is_emitted_def split: event.splits request.splits)

lemma adds_find_call: "adds is_find (find_call svc h p)"
  unfolding find_call_def by (rule adds_call_adapter) (simp add: is_find_def)

lemma adds_resolve_finish:
  "adds (\<lambda>_. False) (resolve_finish svc c origParams opts origID multi ids p h result)"
  unfolding resolve_finish_def Let_def
  by (auto intro!: adds_bnd split: option.splits jv.splits sum.splits)

lemma lookup_event_kinds: "lookup_event e \<Longrightarrow> \<not> is_write e \<and> \<not> is_emitted e"
  by (auto simp: lookup_event_def pool_event_def is_find_def is_write_def is_emitted_def
      split: event.splits request.splits)

lemma adds_resolveEntities: "adds lookup_event (resolveEntities svc c params opts)"
proof (cases "resolve_query svc c params opts")
  case (Inl e)
  then show ?thesis by (simp add: resolveEntities_def)
next
  case (Inr t)
  obtain multi ids p where t: "t = (multi, ids, p)" by (cases t)
  have 1: "adds lookup_event (getAdapter svc c)"
    by (rule adds_mono [OF adds_getAdapter]) (simp add: lookup_event_def)
  have 2: "\<And>h. adds lookup_event (find_call svc h p)"
    by (rule adds_mono [OF adds_find_call]) (simp add: lookup_event_def)
  have 3: "\<And>h result. adds lookup_event
      (resolve_finish svc c params opts (obj_get params (name (primaryField svc))) multi ids p h result)"
    by (rule adds_mono [OF adds_resolve_finish]) simp
  show ?thesis
    unfolding resolveEntities_def Inr t by (simp add: adds_bnd 1 2 3)
qed

lemma resolveEntities_no_match:
  assumes query: "resolve_query svc c params opts = Inr (multi, ids, p)"
    and acquired: "getAdapter svc c s = Some (Inr h, s1)"
    and answer: "find_call svc h p s1 = Some (Inr result, s2)"
    and none: "no_match result"
  shows "resolveEntities svc c params opts s
           = Some (if truthy (obj_get opts ''throwIfNotExist'')
                   then Inl (EntityNotFound (obj_get params (name (primaryField svc))))
                   else Inr (if obj_get params ''mapping'' = JBool True then JObj []
                             else if isArray (obj_get params (name (primaryField svc))) then JArr []
                             else JNull),
                   s2)"
    and "\<exists>evs. new_events s s2 = evs @ [AdapterCall h (FindReq p) (Found result)]
           \<and> list_all pool_event evs"
proof -
  have mp: "obj_get p ''mapping'' = obj_get params ''mapping''"
    using resolve_query_Inr(4) [OF query, of "''mapping''"] by simp
  have multi: "multi = isArray (obj_get params (name (primaryField svc)))"
    by (rule resolve_query_Inr(1) [OF query])
  have "resolveEntities svc c params opts s
      = resolve_finish svc c params opts (obj_get params (name (primaryField svc)))
          multi ids p h result s2"
    using query acquired answer by (simp add: resolveEntities_def bnd_def)
  also have "\<dots> = Some (if truthy (obj_get opts ''throwIfNotExist'')
                   then Inl (EntityNotFound (obj_get params (name (primaryField svc))))
                   else Inr (if obj_get p ''mapping'' = JBool True then JObj []
                             else if multi then JArr [] else JNull), s2)"
    by (rule resolve_finish_no_match [OF none])
  finally show "resolveEntities svc c params opts s
      = Some (if truthy (obj_get opts ''throwIfNotExist'')
                   then Inl (EntityNotFound (obj_get params (name (primaryField svc))))
                   else Inr (if obj_get params ''mapping'' = JBool True then JObj []
                             else if isArray (obj_get params (name (primaryField svc))) then JArr []
                             else JNull), s2)"
    by (simp add: mp multi)
  from addsD [OF adds_getAdapter acquired] obtain evs where
    evs: "trace s1 = trace s @ evs" "list_all pool_event evs" by blast
  from find_call_run [OF answer] evs
  have "new_events s s2 = evs @ [AdapterCall h (FindReq p) (Found result)]"
    by (simp add: new_events_def)
  with evs(2) show "\<exists>evs. new_events s s2 = evs @ [AdapterCall h (FindReq p) (Found result)]
           \<and> list_all pool_event evs" by blast
qed


text \<open>
  Claim C8.  A resolve call builds its lookup, acquires the adapter and asks it; when the
  adapter answers with no match (an empty array or nothing), the call ends there: it
  fails with \<open>EntityNotFound\<close> of the identifier as given if \<open>throwIfNotExist\<close> is set,
  and otherwise returns \<open>{}\<close> when a mapping was asked for, \<open>[]\<close> when a list of
  identifiers was given, and \<open>null\<close> for one identifier.  Nothing that the call has done
  is a write on an adapter.
\<close>

theorem resolve_no_match:
  assumes query: "resolve_query svc c params opts = Inr (multi, ids, p)"
    and acquired: "getAdapter svc c s = Some (Inr h, s1)"
    and answer: "find_call svc h p s1 = Some (Inr result, s2)"
    and none: "no_match result"
  shows "resolveEntities svc c params opts s
           = Some (if truthy (obj_get opts ''throwIfNotExist'')
                   then Inl (EntityNotFound (obj_get params (name (primaryField svc))))
                   else Inr (if obj_get params ''mapping'' = JBool True then JObj []
                             else if isArray (obj_get params (name (primaryField svc))) then JArr []
                             else JNull),
                   s2)
       \<and> list_all (\<lambda>e. \<not> is_write e) (new_events s s2)"
proof -
  from resolveEntities_no_match(2) [OF query acquired answer none] pool_event_kinds
  have "list_all (\<lambda>e. \<not> is_write e) (new_events s s2)"
    by (auto simp: list_all_iff is_write_def)
  with resolveEntities_no_match(1) [OF query acquired answer none] show ?thesis by blast
qed

theorem resolve_no_match_witness:
  "map_option fst
     (resolveEntities demo_service (Context 7) [(''id'', JNum 1002)]
        [(''throwIfNotExist'', JBool True)] (demo_state 0))
     = Some (Inl (EntityNotFound (JNum 1002)))
   \<and> map_option fst
     (resolveEntities demo_service (Context 7) [(''id'', JNum 1002)] [] (demo_state 0))
     = Some (Inr JNull)
   \<and> map_option fst
     (resolveEntities demo_service (Context 7)
        [(''id'', JArr [JNum 1002]), (''mapping'', JBool True)] [] (demo_state 0))
     = Some (Inr (JObj []))"
proof -
  let ?c = "Context 7"
  let ?params = "[(''id'', JNum 1002)]"
  let ?strict = "[(''throwIfNotExist'', JBool True)]"
  let ?q = "[(''id'', JNum 1002), (''query'', JObj [(''active'', JBool True), (''_id'', JNum 2)])]"
  let ?s1 = "snd (the (getAdapter demo_service ?c (demo_state 0)))"
  let ?s2 = "snd (the (find_call demo_service 0 ?q ?s1))"
  have none: "no_match (Some [])" by (simp add: no_match_def)
  have acquired: "getAdapter demo_service ?c (demo_state 0) = Some (Inr 0, ?s1)" by code_simp
  have answer: "find_call demo_service 0 ?q ?s1 = Some (Inr (Some []), ?s2)" by code_simp
  have q1: "resolve_query demo_service ?c ?params ?strict = Inr (False, [JNum 2], ?q)" by code_simp
  have q2: "resolve_query demo_service ?c ?params [] = Inr (False, [JNum 2], ?q)" by code_simp
  have w1: "map_option fst (resolveEntities demo_service ?c ?params ?strict (demo_state 0))
      = Some (Inl (EntityNotFound (JNum 1002)))"
    using resolve_no_match [OF q1 acquired answer none]
    by (simp add: demo_service_def obj_get_def truthy_def)
  have w2: "map_option fst (resolveEntities demo_service ?c ?params [] (demo_state 0))
      = Some (Inr JNull)"
    using resolve_no_match [OF q2 acquired answer none]
    by (simp add: demo_service_def obj_get_def truthy_def isArray_def)
  let ?mparams = "[(''id'', JArr [JNum 1002]), (''mapping'', JBool True)]"
  let ?mq = "[(''id'', JArr [JNum 1002]), (''mapping'', JBool True),
              (''query'', JObj [(''active'', JBool True), (''_id'', JObj [(''$in'', JArr [JNum 2])])])]"
  let ?m2 = "snd (the (find_call demo_service 0 ?mq ?s1))"
  have q3: "resolve_query demo_service ?c ?mparams [] = Inr (True, [JNum 2], ?mq)" by code_simp
  have answer3: "find_call demo_service 0 ?mq ?s1 = Some (Inr (Some []), ?m2)" by code_simp
  have w3: "map_option fst (resolveEntities demo_service ?c ?mparams [] (demo_state 0))
      = Some (Inr (JObj []))"
    using resolve_no_match [OF q3 acquired answer3 none]
    by (simp add: demo_service_def obj_get_def truthy_def isArray_def)
  from w1 w2 w3 show ?thesis by blast
qed

section \<open>Properties of updateEntity and of the change notification\<close>

lemma adds_update_prepare: "adds lookup_event (update_prepare svc c params opts)"
proof -
  have 1: "adds lookup_event (getAdapter svc c)"
    by (rule adds_mono [OF adds_getAdapter]) (simp add: lookup_event_def)
  show ?thesis
    unfolding update_prepare_def
    by (intro adds_bnd 1 adds_resolveEntities adds_lift_result adds_ret) auto
qed

lemma update_commit_empty:
  "update_commit svc c opts (h, i, oldEntity, []) s =
     Some (if obj_get opts ''transform'' \<noteq> JBool False then transformResult svc h oldEntity [] c
           else Inr oldEntity, s)"
  by (simp add: update_commit_def transform_unless_disabled_def bnd_def ret_def lift_result_def
      split: sum.splits)

lemma updateEntity_unfold:
  "updateEntity svc c params opts = bnd (update_prepare svc c params opts) (update_commit svc c opts)"
  by (simp add: updateEntity_def cloneDeep_def)

text \<open>
  Claim C3.  When the patch body that \<open>updateEntity\<close> has prepared (validated, the
  identifier fields deleted) is empty, the call returns the entity that the lookup
  resolved, passed through \<open>transformResult\<close> unless \<open>opts.transform\<close> is \<open>false\<close>
  (a failure of the transformer is the failure of the call); the state is the one the
  preparation left, and nothing the call added to the trace is a write on an adapter or
  an emitted event.
\<close>

theorem update_empty_patch:
  assumes prep: "update_prepare svc c params opts s = Some (Inr (h, i, oldEntity, []), s1)"
  shows "updateEntity svc c params opts s =
           Some (if obj_get opts ''transform'' \<noteq> JBool False
                 then transformResult svc h oldEntity [] c
                 else Inr oldEntity, s1)
       \<and> list_all (\<lambda>e. \<not> is_write e \<and> \<not> is_emitted e) (new_events s s1)
       \<and> (\<exists>s0. getAdapter svc c s = Some (Inr h, s0)
              \<and> resolveEntities svc c params lookup_opts s0 = Some (Inr oldEntity, s1))"
proof (intro conjI)
  show "updateEntity svc c params opts s =
           Some (if obj_get opts ''transform'' \<noteq> JBool False
                 then transformResult svc h oldEntity [] c
                 else Inr oldEntity, s1)"
    using prep by (simp add: updateEntity_unfold bnd_def update_commit_empty)
  show "list_all (\<lambda>e. \<not> is_write e \<and> \<not> is_emitted e) (new_events s s1)"
    using adds_new_events [OF adds_update_prepare prep] lookup_event_kinds
    by (auto simp: list_all_iff)
  from prep show "\<exists>s0. getAdapter svc c s = Some (Inr h, s0)
              \<and> resolveEntities svc c params lookup_opts s0 = Some (Inr oldEntity, s1)"
    by (auto simp: update_prepare_def bnd_Some lift_result_def ret_def split: if_splits)
qed

theorem update_empty_patch_witness:
  "map_option fst (updateEntity demo_service (Context 7) [(''id'', JNum 1001)] [] (demo_state 0))
     = Some (Inr (JObj [(''id'', JNum 1001), (''title'', JStr ''first''), (''active'', JBool True)]))
   \<and> map_option fst
        (updateEntity demo_service (Context 7) [(''id'', JNum 1001)] [(''transform'', JBool False)]
           (demo_state 0))
     = Some (Inr (JObj [(''_id'', JNum 1), (''title'', JStr ''first''), (''active'', JBool True)]))"
proof -
  let ?old = "JObj [(''_id'', JNum 1), (''title'', JStr ''first''), (''active'', JBool True)]"
  let ?p1 = "update_prepare demo_service (Context 7) [(''id'', JNum 1001)] [] (demo_state 0)"
  let ?p2 = "update_prepare demo_service (Context 7) [(''id'', JNum 1001)]
               [(''transform'', JBool False)] (demo_state 0)"
  have prep1: "?p1 = Some (Inr (0, JNum 1, ?old, []), snd (the ?p1))" by code_simp
  have prep2: "?p2 = Some (Inr (0, JNum 1, ?old, []), snd (the ?p2))" by code_simp
  have t: "transformResult demo_service 0 ?old [] (Context 7)
      = Inr (JObj [(''id'', JNum 1001), (''title'', JStr ''first''), (''active'', JBool True)])"
    by code_simp
  from update_empty_patch [OF prep1] t
  have w1: "map_option fst (updateEntity demo_service (Context 7) [(''id'', JNum 1001)] [] (demo_state 0))
     = Some (Inr (JObj [(''id'', JNum 1001), (''title'', JStr ''first''), (''active'', JBool True)]))"
    by (simp add: obj_get_def)
  from update_empty_patch [OF prep2]
  have w2: "map_option fst
        (updateEntity demo_service (Context 7) [(''id'', JNum 1001)] [(''transform'', JBool False)]
           (demo_state 0))
     = Some (Inr ?old)"
    by (simp add: obj_get_def)
  from w1 w2 show ?thesis by blast
qed

lemma u_entityChanged_without_cache:
  "cacheOpts (mixinOpts svc) = None \<Longrightarrow> u_entityChanged svc type d c opts s = Some (Inl TypeError, s)"
  by (simp add: u_entityChanged_def)

text \<open>
  Claim C2.  The two notification channels are meant to be switched on and off one by
  one.  With the cache switched off, \<open>cacheOpts\<close> is \<open>null\<close>, and \<open>_entityChanged\<close>
  reads \<open>cacheOpts.eventType\<close> before it tests \<open>cacheOpts\<close>: the create below has
  already inserted the entity when it fails with a \<open>TypeError\<close>, and the lifecycle
  event, which is switched on, is never sent.
\<close>

theorem cache_disabled_breaks_create:
  "cacheOpts (mixinOpts demo_nocache) = None
   \<and> entityChangedEventType (mixinOpts demo_nocache) = Some BroadcastEvent
   \<and> map_option fst
        (createEntity demo_nocache (Context 7) [(''title'', JStr ''x'')] [] (demo_state 0))
      = Some (Inl TypeError)
   \<and> map_option (\<lambda>rs. filter is_write (trace (snd rs)))
        (createEntity demo_nocache (Context 7) [(''title'', JStr ''x'')] [] (demo_state 0))
      = Some [AdapterCall 0 (InsertReq [(''title'', JStr ''x'')])
                (Returned (JObj [(''title'', JStr ''x'')]))]
   \<and> map_option (\<lambda>rs. filter is_emitted (trace (snd rs)))
        (createEntity demo_nocache (Context 7) [(''title'', JStr ''x'')] [] (demo_state 0))
      = Some []"
  by code_simp

section \<open>Properties of the Scope Resolver\<close>

text \<open>
  Claim C7.  A request with \<open>scope: false\<close> comes back as it went in, no scope applied,
  when the authority check called with no scope name and no scope grants it; when the
  check denies it, the request is treated as the default scope set treats it; and so is
  a request with no \<open>scope\<close> parameter.
\<close>

theorem scope_choice:
  "(obj_get params ''scope'' = JBool False \<and> checkScopeAuthority svc c JNull None
      \<longrightarrow> u_applyScopes svc params c = params)
   \<and> (obj_get params ''scope'' = JBool False \<and> \<not> checkScopeAuthority svc c JNull None
      \<longrightarrow> u_applyScopes svc params c
          = apply_scope_names svc (map_option (map JStr) (defaultScopes svc)) params c)
   \<and> (obj_get params ''scope'' = JUndefined
      \<longrightarrow> u_applyScopes svc params c
          = apply_scope_names svc (map_option (map JStr) (defaultScopes svc)) params c)"
  by (simp add: u_applyScopes_def chosen_scopes_def apply_scope_names_def truthy_def Let_def)

theorem scope_choice_witness:
  "u_applyScopes demo_service [(''query'', JObj []), (''scope'', JBool False)] (Context 1)
     = [(''query'', JObj []), (''scope'', JBool False)]
   \<and> u_applyScopes demo_service [(''query'', JObj []), (''scope'', JBool False)] (Context 7)
     = [(''query'', JObj [(''active'', JBool True)]), (''scope'', JBool False)]
   \<and> u_applyScopes demo_service [(''query'', JObj [])] (Context 7)
     = [(''query'', JObj [(''active'', JBool True)])]"
proof -
  let ?p = "[(''query'', JObj []), (''scope'', JBool False)]"
  let ?d = "map_option (map JStr) (defaultScopes demo_service)"
  have s1: "obj_get ?p ''scope'' = JBool False" by code_simp
  have g: "checkScopeAuthority demo_service (Context 1) JNull None" by code_simp
  have dn: "\<not> checkScopeAuthority demo_service (Context 7) JNull None" by code_simp
  have s2: "obj_get [(''query'', JObj [])] ''scope'' = JUndefined" by code_simp
  have a1: "apply_scope_names demo_service ?d ?p (Context 7)
      = [(''query'', JObj [(''active'', JBool True)]), (''scope'', JBool False)]" by code_simp
  have a2: "apply_scope_names demo_service ?d [(''query'', JObj [])] (Context 7)
      = [(''query'', JObj [(''active'', JBool True)])]" by code_simp
  from scope_choice [of ?p demo_service "Context 1"] s1 g
  have w1: "u_applyScopes demo_service ?p (Context 1) = ?p" by blast
  from scope_choice [of ?p demo_service "Context 7"] s1 dn a1
  have w2: "u_applyScopes demo_service ?p (Context 7)
      = [(''query'', JObj [(''active'', JBool True)]), (''scope'', JBool False)]" by simp
  from scope_choice [of "[(''query'', JObj [])]" demo_service "Context 7"] s2 a2
  have w3: "u_applyScopes demo_service [(''query'', JObj [])] (Context 7)
      = [(''query'', JObj [(''active'', JBool True)])]" by simp
  from w1 w2 w3 show ?thesis by blast
qed

section \<open>Properties of the mapping of resolveEntities\<close>

lemma map_of_foldl_obj_set:
  "map_of (foldl (\<lambda>a kd. obj_set a (fst kd) (snd kd)) acc kvs) = map_of acc ++ map_of (rev kvs)"
proof (induction kvs arbitrary: acc)
  case Nil
  then show ?case by simp
next
  case (Cons kv kvs)
  have "map_of (obj_set acc (fst kv) (snd kv)) = (map_of acc)(fst kv \<mapsto> snd kv)"
    by (rule ext) (simp add: map_of_obj_set)
  then show ?case
    by (simp add: Cons.IH map_add_def fun_eq_iff split: option.splits)
qed


lemma resolve_finish_found:
  "found \<noteq> [] \<Longrightarrow>
   resolve_finish svc c origParams opts origID multi ids p h (Some found) =
     bnd (case hook_afterResolveEntities svc of
            Some hk \<Rightarrow>
              call_ext (hk c (if multi then JArr ids else js_index ids 0)
                          (if multi then JArr found else js_index found 0) origParams opts)
          | None \<Rightarrow> ret ())
       (\<lambda>_. bnd (if obj_get opts ''transform'' \<noteq> JBool False
                  then lift_result (transformResult svc h (JArr found) p c)
                  else ret (JArr found))
          (\<lambda>res.
             if obj_get p ''mapping'' = JBool True then
               (case res of
                  JArr docs \<Rightarrow>
                    (case build_mapping svc found [] 0 docs of
                       Inl e \<Rightarrow> throw e
                     | Inr m \<Rightarrow> ret (JObj m))
                | _ \<Rightarrow> throw TypeError)
             else if \<not> multi then
               (if is_nullish res then throw TypeError else ret (obj_get (js_entries res) ''0''))
             else ret res))"
  by (simp add: resolve_finish_def no_match_def Let_def cong: if_cong option.case_cong)


lemma build_mapping_total:
  "length docs \<le> length unT - i \<Longrightarrow>
   \<forall>e \<in> set (take (length docs) (drop i unT)). \<not> is_nullish e \<Longrightarrow>
   build_mapping svc unT acc i docs
     = Inr (foldl (\<lambda>a kd. obj_set a (fst kd) (snd kd)) acc
              (zip (map (mapping_key svc) (drop i unT)) docs))"
proof (induction docs arbitrary: acc i)
  case Nil
  then show ?case by simp
next
  case (Cons doc docs)
  from Cons.prems(1) have i: "i < length unT" by simp
  then have d: "drop i unT = unT ! i # drop (Suc i) unT" by (simp add: Cons_nth_drop_Suc)
  from Cons.prems(2) d have nn: "\<not> is_nullish (unT ! i)"
    and rest: "\<forall>e \<in> set (take (length docs) (drop (Suc i) unT)). \<not> is_nullish e"
    by simp_all
  from Cons.prems(1) have len: "length docs \<le> length unT - Suc i" by simp
  from i nn have u: "js_index unT i = unT ! i" "\<not> is_nullish (js_index unT i)"
    by (simp_all add: js_index_def)
  have "build_mapping svc unT acc i (doc # docs)
      = build_mapping svc unT (obj_set acc (mapping_key svc (unT ! i)) doc) (Suc i) docs"
    using u by (simp add: Let_def mapping_key_def id_key_def entity_id_def)
  also note Cons.IH [OF len rest]
  finally show ?case by (simp add: d)
qed


text \<open>
  Claim C9 (as amended).  A resolve call with \<open>mapping: true\<close> builds its lookup,
  acquires the adapter and asks it; the adapter answers with entities, and the
  \<open>afterResolveEntities\<close> hook, if there is one, returns.  The documents are what the
  transformer makes of the found entities, or the found entities themselves when
  \<open>opts.transform\<close> is \<open>false\<close>.  When there are no more documents than found entities
  (and the identifiers are printed digit by digit), the call returns the mapping that
  files the document at each position under the key of the found entity at that
  position: its untransformed stored identifier, encoded when the primary field is
  secure, as a property name.  So the keys are the keys of as many found entities as
  there are documents.  With one document for each entity and no key twice, the key of
  every found entity holds the document at its position; and with one document for each
  entity and an adapter that answered with entities of requested identifiers only, the
  keys are the requested identifiers that were found.
\<close>

theorem resolve_mapping:
  assumes query: "resolve_query svc c params opts = Inr (multi, ids, p)"
    and mapping: "obj_get params ''mapping'' = JBool True"
    and acquired: "getAdapter svc c s = Some (Inr h, s1)"
    and answer: "find_call svc h p s1 = Some (Inr (Some found), s2)"
    and some: "found \<noteq> []"
    and hook: "after_resolve_hook svc c multi ids found params opts s2 = Some (Inr (), s3)"
    and docs: "mapped_documents svc opts h found p c = Inr (JArr docs)"
    and fits: "length docs \<le> length found"
    and entities: "\<forall>e \<in> set (take (length docs) found).
        \<not> is_nullish e
        \<and> digit_printed (if secure (primaryField svc) then method_encodeID svc (entity_id svc e)
                           else entity_id svc e)"
  shows "resolveEntities svc c params opts s = Some (Inr (JObj (mapping_of svc found docs)), s3)
       \<and> map_of (mapping_of svc found docs) = map_of (rev (zip (map (mapping_key svc) found) docs))
       \<and> fst ` set (mapping_of svc found docs) = mapping_key svc ` set (take (length docs) found)
       \<and> (length docs = length found \<and> distinct (map (mapping_key svc) found)
            \<longrightarrow> (\<forall>j < length found.
                   map_of (mapping_of svc found docs) (mapping_key svc (found ! j)) = Some (docs ! j)))
       \<and> (length docs = length found
            \<and> (\<forall>e \<in> set found. entity_id svc e \<in> set (requested_ids svc params opts))
            \<longrightarrow> fst ` set (mapping_of svc found docs)
                 = id_key svc ` {i \<in> set (requested_ids svc params opts).
                                 i \<in> entity_id svc ` set found})"
proof -
  let ?m = "mapping_of svc found docs"
  let ?kvs = "zip (map (mapping_key svc) found) docs"
  have mp: "obj_get p ''mapping'' = JBool True"
    using resolve_query_Inr(4) [OF query, of "''mapping''"] mapping by simp
  have bm: "build_mapping svc found [] 0 docs = Inr ?m"
    using build_mapping_total [of docs found 0 svc "[]"] fits entities
    by (simp add: mapping_of_def)
  have tr: "(if obj_get opts ''transform'' \<noteq> JBool False
             then lift_result (transformResult svc h (JArr found) p c)
             else ret (JArr found)) s3 = Some (Inr (JArr docs), s3)"
    using docs some by (auto simp: mapped_documents_def lift_result_def ret_def split: if_splits)
  have "resolveEntities svc c params opts s
      = resolve_finish svc c params opts (obj_get params (name (primaryField svc)))
          multi ids p h (Some found) s2"
    using query acquired answer by (simp add: resolveEntities_def bnd_def)
  also have "\<dots> = Some (Inr (JObj ?m), s3)"
    unfolding resolve_finish_found [OF some]
    using hook tr mp bm
    by (simp add: bnd_def after_resolve_hook_def ret_def)
  finally have run: "resolveEntities svc c params opts s = Some (Inr (JObj ?m), s3)" .
  have mo: "map_of ?m = map_of (rev ?kvs)"
    using map_of_foldl_obj_set [of "[]" ?kvs] by (simp add: mapping_of_def)
  have "fst ` set ?m = dom (map_of ?m)" by (simp add: dom_map_of_conv_image_fst)
  also have "\<dots> = fst ` set ?kvs" by (simp add: mo dom_map_of_conv_image_fst)
  also have "\<dots> = set (map fst ?kvs)" by simp
  also have "map fst ?kvs = take (length docs) (map (mapping_key svc) found)"
    using fits by (simp add: map_fst_zip_take min_def)
  finally have keys: "fst ` set ?m = mapping_key svc ` set (take (length docs) found)"
    by (simp add: take_map)
  have vals: "length docs = length found \<and> distinct (map (mapping_key svc) found)
      \<longrightarrow> (\<forall>j < length found. map_of ?m (mapping_key svc (found ! j)) = Some (docs ! j))"
  proof (intro impI allI)
    fix j assume a: "length docs = length found \<and> distinct (map (mapping_key svc) found)"
      and j: "j < length found"
    from a have d: "distinct (map fst (rev ?kvs))" by (simp add: rev_map [symmetric])
    from a j have "(mapping_key svc (found ! j), docs ! j) \<in> set (rev ?kvs)"
      by (auto simp: in_set_zip intro!: exI [of _ j])
    with d show "map_of ?m (mapping_key svc (found ! j)) = Some (docs ! j)"
      by (simp add: mo)
  qed
  have req: "length docs = length found
      \<and> (\<forall>e \<in> set found. entity_id svc e \<in> set (requested_ids svc params opts))
      \<longrightarrow> fst ` set ?m = id_key svc ` {i \<in> set (requested_ids svc params opts).
                                      i \<in> entity_id svc ` set found}"
  proof (intro impI)
    assume a: "length docs = length found
      \<and> (\<forall>e \<in> set found. entity_id svc e \<in> set (requested_ids svc params opts))"
    then have "{i \<in> set (requested_ids svc params opts). i \<in> entity_id svc ` set found}
        = entity_id svc ` set found" by auto
    with a keys show "fst ` set ?m = id_key svc ` {i \<in> set (requested_ids svc params opts).
                                      i \<in> entity_id svc ` set found}"
      by (simp add: mapping_key_def image_image)
  qed
  from run mo keys vals req show ?thesis by blast
qed


theorem resolve_mapping_witness:
  "map_option fst
     (resolveEntities demo_service (Context 1)
        [(''id'', JArr [JNum 1001, JNum 1002]), (''mapping'', JBool True), (''scope'', JBool False)]
        [] (demo_state 0))
   = Some (Inr (JObj
        [(''1001'', JObj [(''id'', JNum 1001), (''title'', JStr ''first''), (''active'', JBool True)]),
         (''1002'', JObj [(''id'', JNum 1002), (''title'', JStr ''second''), (''active'', JBool False)])]))
   \<and> mapping_key demo_service ` set demo_store = {''1001'', ''1002''}"
proof -
  let ?c = "Context 1"
  let ?params = "[(''id'', JArr [JNum 1001, JNum 1002]), (''mapping'', JBool True), (''scope'', JBool False)]"
  let ?q = "?params @ [(''query'', JObj [(''_id'', JObj [(''$in'', JArr [JNum 1, JNum 2])])])]"
  let ?M = "[(''1001'', JObj [(''id'', JNum 1001), (''title'', JStr ''first''), (''active'', JBool True)]),
         (''1002'', JObj [(''id'', JNum 1002), (''title'', JStr ''second''), (''active'', JBool False)])]"
  let ?docs = "map demo_public demo_store"
  let ?s1 = "snd (the (getAdapter demo_service ?c (demo_state 0)))"
  let ?s2 = "snd (the (find_call demo_service 0 ?q ?s1))"
  have query: "resolve_query demo_service ?c ?params [] = Inr (True, [JNum 1, JNum 2], ?q)"
    by code_simp
  have mapping: "obj_get ?params ''mapping'' = JBool True" by code_simp
  have acquired: "getAdapter demo_service ?c (demo_state 0) = Some (Inr 0, ?s1)" by code_simp
  have answer: "find_call demo_service 0 ?q ?s1 = Some (Inr (Some demo_store), ?s2)" by code_simp
  have some: "demo_store \<noteq> []" by code_simp
  have hook: "after_resolve_hook demo_service ?c True [JNum 1, JNum 2] demo_store ?params [] ?s2
      = Some (Inr (), ?s2)"
    by (simp add: after_resolve_hook_def demo_service_def ret_def)
  have docs: "mapped_documents demo_service [] 0 demo_store ?q ?c = Inr (JArr ?docs)" by code_simp
  have fits: "length ?docs \<le> length demo_store" by simp
  have entities: "\<forall>e \<in> set (take (length ?docs) demo_store).
      \<not> is_nullish e
      \<and> digit_printed (if secure (primaryField demo_service)
                         then method_encodeID demo_service (entity_id demo_service e)
                         else entity_id demo_service e)"
    by code_simp
  have m: "mapping_of demo_service demo_store ?docs = ?M" by code_simp
  from resolve_mapping [OF query mapping acquired answer some hook docs fits entities]
  have run: "resolveEntities demo_service ?c ?params [] (demo_state 0) = Some (Inr (JObj ?M), ?s2)"
    and keys: "fst ` set ?M = mapping_key demo_service ` set (take (length ?docs) demo_store)"
    unfolding m by blast+
  from keys have "mapping_key demo_service ` set demo_store = {''1001'', ''1002''}" by auto
  with run show ?thesis by simp
qed

theorem resolve_mapping_untransformed_counterexample:
  "map_option fst
     (resolveEntities demo_service (Context 1)
        [(''id'', JArr [JNum 1001]), (''mapping'', JBool True)]
        [(''transform'', JBool False)] (demo_state 0))
   = Some (Inr (JObj
        [(''1001'', JObj [(''_id'', JNum 1), (''title'', JStr ''first''), (''active'', JBool True)])]))
   \<and> transformResult demo_service 0
        (JObj [(''_id'', JNum 1), (''title'', JStr ''first''), (''active'', JBool True)]) []
        (Context 1)
     = Inr (JObj [(''id'', JNum 1001), (''title'', JStr ''first''), (''active'', JBool True)])"
  by code_simp


section \<open>The lookup of the writing operations\<close>




lemma obj_set_twice [simp]: "obj_set (obj_set kvs k a) k b = obj_set kvs k b"
  by (induction kvs) auto














section \<open>Properties of concurrent calls of getAdapter\<close>

lemma created_for_append [simp]: "created_for k (xs @ ys) = created_for k xs @ created_for k ys"
  by (simp add: created_for_def)

lemma created_for_simps [simp]:
  "created_for k [] = []"
  "created_for k (AdapterCreated h k' # evs) = (if k' = k then h # created_for k evs else created_for k evs)"
  "created_for k (AdapterCall h req out # evs) = created_for k evs"
  "created_for k (Timeout d # evs) = created_for k evs"
  by (simp_all add: created_for_def)

lemma connect_calls_simps [simp]:
  "connect_calls h [] = 0"
  "connect_calls h (AdapterCreated h' k # evs) = connect_calls h evs"
  "connect_calls h (AdapterCall h' ConnectReq out # evs)
     = (if h' = h then Suc (connect_calls h evs) else connect_calls h evs)"
  "connect_calls h (Timeout d # evs) = connect_calls h evs"
  by (simp_all add: connect_calls_def)

lemma map_of_touchEntry:
  "map_of (adapters (touchEntry k s)) k' =
     map_option (\<lambda>e. if k' = k then e\<lparr>touched := clock s\<rparr> else e) (map_of (adapters s) k')"
proof -
  have "\<And>p. map_of (map (\<lambda>(k'', e). if k'' = k then (k'', e\<lparr>touched := clock s\<rparr>) else (k'', e)) p) k'
      = map_option (\<lambda>e. if k' = k then e\<lparr>touched := clock s\<rparr> else e) (map_of p k')"
    subgoal for p by (induction p) auto
    done
  then show ?thesis by (simp add: touchEntry_def)
qed

lemma touchEntry_None [simp]:
  "(map_of (adapters (touchEntry k s)) k' = None) = (map_of (adapters s) k' = None)"
  by (simp add: map_of_touchEntry)

lemma touchEntry_obs [simp]:
  "trace (touchEntry k s) = trace s"
  "length (adapters (touchEntry k s)) = length (adapters s)"
  by (simp_all add: touchEntry_def)

lemma holds_touchEntry [simp]: "holds (adapters (touchEntry k s)) k' h = holds (adapters s) k' h"
  by (cases "map_of (adapters s) k'") (auto simp: holds_def map_of_touchEntry)

lemma map_of_registerAdapter:
  "map_of (adapters s) k = None \<Longrightarrow>
   map_of (adapters (registerAdapter k s)) k' =
     (if k' = k then Some \<lparr>hash = k, adapter = nextAdapter s, touched = clock s\<rparr>
      else map_of (adapters s) k')"
  by (auto simp: registerAdapter_def map_add_def split: option.splits)

lemma registerAdapter_obs [simp]:
  "trace (registerAdapter k s) = trace s @ [AdapterCreated (nextAdapter s) k]"
  "length (adapters (registerAdapter k s)) = Suc (length (adapters s))"
  by (simp_all add: registerAdapter_def)

lemma connect_attempt_adapters:
  "connect_attempt svc h k opts s = Some (r, s1) \<Longrightarrow> adapters s1 = adapters s"
  by (auto simp: connect_attempt_def bnd_Some call_adapter_def call_ext_def ret_def
      split: option.splits prod.splits)

text \<open>A pool with room closes nothing.\<close>

lemma length_new_keys:
  "length (new_keys svc s cs)
     = card {k \<in> tenant_key svc ` set cs. map_of (adapters s) k = None}"
  unfolding new_keys_def length_remdups_card_conv
  by (rule arg_cong [where f = card]) auto

lemma new_keys_touchEntry [simp]: "new_keys svc (touchEntry k s) cs = new_keys svc s cs"
  unfolding new_keys_def by (simp only: touchEntry_None)

lemma new_keys_registerAdapter:
  assumes c: "c \<in> set cs" and none: "map_of (adapters s) (tenant_key svc c) = None"
  shows "Suc (length (new_keys svc (registerAdapter (tenant_key svc c) s) cs))
       = length (new_keys svc s cs)"
proof -
  let ?k = "tenant_key svc c"
  let ?M = "{k \<in> tenant_key svc ` set cs. map_of (adapters s) k = None}"
  have eq: "{k \<in> tenant_key svc ` set cs. map_of (adapters (registerAdapter ?k s)) k = None}
      = ?M - {?k}"
    unfolding map_of_registerAdapter [OF none] by auto
  have mem: "?k \<in> ?M" using c none by simp
  have fin: "finite ?M" by simp
  from card.remove [OF fin mem] show ?thesis
    unfolding length_new_keys eq by simp
qed

lemma closeable_entries_room:
  assumes room: "pool_has_room svc s cs"
    and c: "c \<in> set cs" and none: "map_of (adapters s) (tenant_key svc c) = None"
  shows "closeable_entries svc (registerAdapter (tenant_key svc c) s) = []"
    and "pool_has_room svc (registerAdapter (tenant_key svc c) s) cs"
proof -
  let ?s' = "registerAdapter (tenant_key svc c) s"
  have len: "length (adapters ?s') = Suc (length (adapters s))" by simp
  note nk = new_keys_registerAdapter [OF c none, symmetric]
  show "closeable_entries svc ?s' = []"
  proof (cases "maximumAdapters (mixinOpts svc)")
    case None
    then show ?thesis by (simp add: closeable_entries_def)
  next
    case (Some m)
    show ?thesis
    proof (cases "m < 1")
      case True
      with Some show ?thesis by (simp add: closeable_entries_def)
    next
      case False
      with room Some have "int (length (adapters s)) + int (length (new_keys svc s cs)) \<le> m"
        by (simp add: pool_has_room_def)
      then have "int (Suc (length (adapters s))) \<le> m" unfolding nk by simp
      with Some False show ?thesis unfolding closeable_entries_def len by simp
    qed
  qed
  show "pool_has_room svc ?s' cs"
  proof (cases "maximumAdapters (mixinOpts svc)")
    case None
    then show ?thesis by (simp add: pool_has_room_def)
  next
    case (Some m)
    show ?thesis
    proof (cases "m < 1")
      case True
      with Some show ?thesis by (simp add: pool_has_room_def)
    next
      case False
      with room Some have "int (length (adapters s)) + int (length (new_keys svc s cs)) \<le> m"
        by (simp add: pool_has_room_def)
      then have "int (Suc (length (adapters s))) + int (length (new_keys svc ?s' cs)) \<le> m"
        unfolding nk by simp
      with Some show ?thesis unfolding pool_has_room_def len by simp
    qed
  qed
qed

text \<open>What one step of a call does to the pool and to the trace.\<close>

lemma task_step_cases:
  assumes room: "pool_has_room svc s cs" and c: "c \<in> set cs"
    and ok: "task_ok svc (adapters s) evs (c, p)"
    and step: "task_step svc c p s = (p', s')"
  obtains
    (idle) "p' = p" "s' = s"
  | (hit) item where "p = Start" "map_of (adapters s) (tenant_key svc c) = Some item"
      "p' = Done (Inr (adapter item))" "s' = touchEntry (tenant_key svc c) s"
  | (miss) opts where "p = Start" "map_of (adapters s) (tenant_key svc c) = None"
      "p' = Connect (nextAdapter s) (tenant_key svc c) opts"
      "s' = registerAdapter (tenant_key svc c) s"
  | (attempt) h opts new where "p = Connect h (tenant_key svc c) opts"
      "holds (adapters s) (tenant_key svc c) h"
      "h \<in> set (created_for (tenant_key svc c) evs)"
      "p' = Connect h (tenant_key svc c) opts \<or> p' = Done (Inr h) \<or> (\<exists>err. p' = Done (Inl err))"
      "adapters s' = adapters s"
      "trace s' = trace s @ new"
      "\<And>k. created_for k new = []"
      "\<And>h'. 0 < connect_calls h' new \<Longrightarrow> h' = h"
proof (cases p)
  case Start
  obtain k opts where key: "method_getAdapterByContext svc c (adapterDef (mixinOpts svc)) = (k, opts)"
    by (cases "method_getAdapterByContext svc c (adapterDef (mixinOpts svc))")
  then have k: "tenant_key svc c = k" by (simp add: tenant_key_def)
  show ?thesis
  proof (cases "map_of (adapters s) k")
    case None
    with closeable_entries_room(1) [OF room c] k
    have "closeable_entries svc (registerAdapter k s) = []" by simp
    with step Start key k None show ?thesis
      by (intro miss [of opts]) (auto simp: task_step_def next_disconnect_def)
  next
    case (Some item)
    with step Start key k show ?thesis
      by (intro hit [of item]) (auto simp: task_step_def)
  qed
next
  case (Disconnecting h k opts e rest)
  with ok show ?thesis by (simp add: task_ok_def)
next
  case (Connect h k opts)
  with ok have k: "k = tenant_key svc c" and hl: "holds (adapters s) k h"
    and cr: "h \<in> set (created_for k evs)"
    by (auto simp: task_ok_def)
  show ?thesis
  proof (cases "connect_attempt svc h k opts s")
    case None
    with step Connect show ?thesis by (intro idle) (auto simp: task_step_def)
  next
    case (Some rs)
    obtain r s1 where rs: "rs = (r, s1)" by (cases rs)
    from connect_attempt_trace [OF Some [unfolded rs]] obtain out where
      tr: "trace s1 = trace s @ [AdapterCall h ConnectReq out]" by blast
    from connect_attempt_adapters [OF Some [unfolded rs]] have ad: "adapters s1 = adapters s" .
    have "trace s' = trace s @ [AdapterCall h ConnectReq out]
       \<or> trace s' = trace s @ [AdapterCall h ConnectReq out, Timeout 1000]"
      using step Connect Some rs tr
      by (auto simp: task_step_def setTimeout_def split: sum.splits if_splits)
    then obtain new where new: "trace s' = trace s @ new"
      and shape: "new = [AdapterCall h ConnectReq out]
                \<or> new = [AdapterCall h ConnectReq out, Timeout 1000]"
      by blast
    have c1: "\<And>k'. created_for k' new = []" using shape by auto
    have c2: "\<And>h'. 0 < connect_calls h' new \<Longrightarrow> h' = h"
      using shape by (auto split: if_splits)
    have p': "p' = Connect h k opts \<or> p' = Done (Inr h) \<or> (\<exists>err. p' = Done (Inl err))"
      using step Connect Some rs by (auto simp: task_step_def split: sum.splits if_splits)
    have ad': "adapters s' = adapters s"
      using step Connect Some rs ad
      by (auto simp: task_step_def setTimeout_def split: sum.splits if_splits)
    show ?thesis
    proof (rule attempt [of h opts new])
      show "p = Connect h (tenant_key svc c) opts" using Connect k by simp
      show "holds (adapters s) (tenant_key svc c) h" using hl k by simp
      show "h \<in> set (created_for (tenant_key svc c) evs)" using cr k by simp
      show "p' = Connect h (tenant_key svc c) opts \<or> p' = Done (Inr h) \<or> (\<exists>err. p' = Done (Inl err))"
        using p' k by simp
      show "adapters s' = adapters s" by (rule ad')
      show "trace s' = trace s @ new" by (rule new)
      show "\<And>k. created_for k new = []" by (rule c1)
      show "\<And>h'. 0 < connect_calls h' new \<Longrightarrow> h' = h" by (rule c2)
    qed
  qed
next
  case (Done r)
  with step show ?thesis by (intro idle) (auto simp: task_step_def)
qed


lemma task_ok_touchEntry [simp]:
  "task_ok svc (adapters (touchEntry k s)) evs t = task_ok svc (adapters s) evs t"
  by (simp add: task_ok_def split: pc.splits sum.splits)

lemma task_ok_mono:
  assumes ok: "task_ok svc pool evs t"
    and pool: "\<And>k h. holds pool k h \<Longrightarrow> holds pool' k h"
  shows "task_ok svc pool' (evs @ new) t"
  using ok pool by (auto simp: task_ok_def split: pc.splits sum.splits)

lemma connects_simps [simp]:
  "connects k (c, Start) = False"
  "connects k (c, Done r) = False"
  "connects k (c, Connect h k' opts) = (k' = k)"
  by (simp_all add: connects_def)

lemma length_filter_update:
  "i < length xs \<Longrightarrow>
   length (filter P (xs[i := y])) + (if P (xs ! i) then 1 else 0)
     = length (filter P xs) + (if P y then 1 else 0)"
proof (induction xs arbitrary: i)
  case Nil
  then show ?case by simp
next
  case (Cons x xs)
  show ?case
  proof (cases i)
    case 0
    then show ?thesis by simp
  next
    case (Suc j)
    with Cons.prems have "j < length xs" by simp
    from Cons.IH [OF this] Suc show ?thesis by simp
  qed
qed

lemma connecting_for_update:
  "i < length ts \<Longrightarrow>
   length (connecting_for k (ts[i := t'])) + (if connects k (ts ! i) then 1 else 0)
     = length (connecting_for k ts) + (if connects k t' then 1 else 0)"
  using length_filter_update [of i ts "connects k" t']
  by (simp add: connecting_for_def connects_def [abs_def])

lemma map_fst_update:
  "i < length ts \<Longrightarrow> fst (ts ! i) = c \<Longrightarrow> map fst (ts[i := (c, p)]) = map fst ts"
  by (simp add: map_update list_update_same_conv)

lemma in_set_update: "t \<in> set (ts[i := t']) \<Longrightarrow> t = t' \<or> t \<in> set ts"
  using set_update_subset_insert [of ts i t'] by auto

lemma acquire_invI:
  assumes "trace s = trace s0 @ evs"
    and "map fst ts = cs"
    and "pool_has_room svc s cs"
    and "\<And>t. t \<in> set ts \<Longrightarrow> task_ok svc (adapters s) evs t"
    and "\<And>k. key_ok s0 s ts evs k"
    and "\<And>h. 0 < connect_calls h evs \<Longrightarrow> \<exists>k. h \<in> set (created_for k evs)"
  shows "acquire_inv svc s0 cs \<lparr>shared = s, tasks = ts\<rparr> evs"
proof -
  have sel: "shared \<lparr>shared = s, tasks = ts\<rparr> = s" "tasks \<lparr>shared = s, tasks = ts\<rparr> = ts"
    by simp_all
  show ?thesis unfolding acquire_inv_def sel using assms by blast
qed

lemma acquire_inv_step:
  assumes inv: "acquire_inv svc s0 cs cf evs"
  shows "\<exists>evs'. acquire_inv svc s0 cs (sched_step svc i cf) evs'"
proof (cases "i < length (tasks cf)")
  case False
  with inv show ?thesis by (auto simp: sched_step_def)
next
  case True
  let ?s = "shared cf" and ?ts = "tasks cf"
  obtain c p where t: "?ts ! i = (c, p)" by (cases "?ts ! i")
  obtain p' s' where st: "task_step svc c p ?s = (p', s')"
    by (cases "task_step svc c p ?s")
  have cf': "sched_step svc i cf = \<lparr>shared = s', tasks = ?ts[i := (c, p')]\<rparr>"
    using True t st by (simp add: sched_step_def)
  from inv have tr: "trace ?s = trace s0 @ evs"
    and cs: "map fst ?ts = cs"
    and room: "pool_has_room svc ?s cs"
    and all: "\<And>t. t \<in> set ?ts \<Longrightarrow> task_ok svc (adapters ?s) evs t"
    and keys: "\<And>k. key_ok s0 ?s ?ts evs k"
    and conn: "\<And>h. 0 < connect_calls h evs \<Longrightarrow> \<exists>k. h \<in> set (created_for k evs)"
    by (auto simp: acquire_inv_def)
  have mem: "(c, p) \<in> set ?ts" using True t by (metis nth_mem)
  then have c: "c \<in> set cs" using cs by force
  have ok: "task_ok svc (adapters ?s) evs (c, p)" using all mem by blast
  have cs': "map fst (?ts[i := (c, p')]) = cs"
    using map_fst_update [OF True, of c p'] t cs by simp
  note upd = connecting_for_update [OF True, of _ "(c, p')", unfolded t]
  let ?k = "tenant_key svc c"
  from room c ok st show ?thesis
  proof (cases rule: task_step_cases)
    case idle
    then have "sched_step svc i cf = cf"
      using cf' t by (simp add: list_update_same_conv [THEN iffD2] True)
    with inv show ?thesis by auto
  next
    case (hit item)
    have room': "pool_has_room svc s' cs"
      using room hit(4) by (simp add: pool_has_room_def split: option.splits)
    have all': "\<And>t. t \<in> set (?ts[i := (c, p')]) \<Longrightarrow> task_ok svc (adapters s') evs t"
    proof -
      fix t assume "t \<in> set (?ts[i := (c, p')])"
      then have "t = (c, p') \<or> t \<in> set ?ts" by (rule in_set_update)
      then show "task_ok svc (adapters s') evs t"
      proof
        assume "t = (c, p')"
        with hit show ?thesis by (simp, simp add: task_ok_def holds_def)
      next
        assume "t \<in> set ?ts"
        with all hit(4) show ?thesis by simp
      qed
    qed
    have keys': "\<And>k. key_ok s0 s' (?ts[i := (c, p')]) evs k"
    proof -
      fix k
      from upd [of k] hit(1,3)
      have "length (connecting_for k (?ts[i := (c, p')])) = length (connecting_for k ?ts)"
        by simp
      with keys [of k] hit(4) show "key_ok s0 s' (?ts[i := (c, p')]) evs k"
        by (simp add: key_ok_def)
    qed
    have tr': "trace s' = trace s0 @ evs" using hit(4) tr by simp
    have "acquire_inv svc s0 cs (sched_step svc i cf) evs"
      unfolding cf' by (rule acquire_invI [OF tr' cs' room' all' keys' conn])
    then show ?thesis ..
  next
    case (miss opts)
    let ?new = "[AdapterCreated (nextAdapter ?s) ?k]"
    have room': "pool_has_room svc s' cs"
      using closeable_entries_room(2) [OF room c miss(2)] miss(4) by simp
    have "set (created_for ?k evs) = {}"
      using keys [of ?k] miss(2) by (auto simp: key_ok_def holds_def)
    then have none1: "created_for ?k evs = []" by simp
    have none2: "map_of (adapters s0) ?k = None"
      using keys [of ?k] miss(2) by (auto simp: key_ok_def)
    note none = none1 none2
    have m: "\<And>k. map_of (adapters s') k
        = (if k = ?k then Some \<lparr>hash = ?k, adapter = nextAdapter ?s, touched = clock ?s\<rparr>
           else map_of (adapters ?s) k)"
      using miss(2,4) by (simp add: map_of_registerAdapter)
    have hl: "\<And>k h. holds (adapters ?s) k h \<Longrightarrow> holds (adapters s') k h"
      using miss(2) by (auto simp: holds_def m split: option.splits)
    have all': "\<And>t. t \<in> set (?ts[i := (c, p')]) \<Longrightarrow> task_ok svc (adapters s') (evs @ ?new) t"
    proof -
      fix t assume "t \<in> set (?ts[i := (c, p')])"
      then have "t = (c, p') \<or> t \<in> set ?ts" by (rule in_set_update)
      then show "task_ok svc (adapters s') (evs @ ?new) t"
      proof
        assume "t = (c, p')"
        with miss(3) show ?thesis by (simp add: task_ok_def holds_def m)
      next
        assume "t \<in> set ?ts"
        from task_ok_mono [OF all [OF this] hl] show ?thesis .
      qed
    qed
    have keys': "\<And>k. key_ok s0 s' (?ts[i := (c, p')]) (evs @ ?new) k"
    proof -
      fix k
      show "key_ok s0 s' (?ts[i := (c, p')]) (evs @ ?new) k"
      proof (cases "k = ?k")
        case True
        from upd [of k] miss(1,3) True
        have "length (connecting_for k (?ts[i := (c, p')])) = Suc (length (connecting_for k ?ts))"
          by simp
        moreover have "length (connecting_for k ?ts) = 0"
          using keys [of k] none True by (simp add: key_ok_def)
        ultimately show ?thesis using none True by (simp add: key_ok_def m holds_def)
      next
        case False
        from upd [of k] miss(1,3) False
        have "length (connecting_for k (?ts[i := (c, p')])) = length (connecting_for k ?ts)"
          by auto
        with keys [of k] False show ?thesis by (simp add: key_ok_def m holds_def)
      qed
    qed
    have conn': "\<And>h. 0 < connect_calls h (evs @ ?new)
        \<Longrightarrow> \<exists>k. h \<in> set (created_for k (evs @ ?new))"
    proof -
      fix h assume "0 < connect_calls h (evs @ ?new)"
      then have "0 < connect_calls h evs" by simp
      from conn [OF this] obtain k where "h \<in> set (created_for k evs)" ..
      then have "h \<in> set (created_for k (evs @ ?new))" by simp
      then show "\<exists>k. h \<in> set (created_for k (evs @ ?new))" ..
    qed
    have tr': "trace s' = trace s0 @ evs @ ?new" using miss(4) tr by simp
    have "acquire_inv svc s0 cs (sched_step svc i cf) (evs @ ?new)"
      unfolding cf' by (rule acquire_invI [OF tr' cs' room' all' keys' conn'])
    then show ?thesis ..
  next
    case (attempt h opts new)
    have room': "pool_has_room svc s' cs"
      using room attempt(5) by (simp add: pool_has_room_def new_keys_def split: option.splits)
    have all': "\<And>t. t \<in> set (?ts[i := (c, p')]) \<Longrightarrow> task_ok svc (adapters s') (evs @ new) t"
    proof -
      fix t assume "t \<in> set (?ts[i := (c, p')])"
      then have "t = (c, p') \<or> t \<in> set ?ts" by (rule in_set_update)
      then show "task_ok svc (adapters s') (evs @ new) t"
      proof
        assume "t = (c, p')"
        with attempt(2,3,4,5) show ?thesis by (auto simp: task_ok_def)
      next
        assume "t \<in> set ?ts"
        from task_ok_mono [OF all [OF this], of "adapters s'" new] attempt(5)
        show ?thesis by simp
      qed
    qed
    have keys': "\<And>k. key_ok s0 s' (?ts[i := (c, p')]) (evs @ new) k"
    proof -
      fix k
      from upd [of k] attempt(1,4)
      have "length (connecting_for k (?ts[i := (c, p')])) \<le> length (connecting_for k ?ts)"
        by (auto split: if_splits)
      with keys [of k] attempt(5,7) show "key_ok s0 s' (?ts[i := (c, p')]) (evs @ new) k"
        by (simp add: key_ok_def)
    qed
    have conn': "\<And>h'. 0 < connect_calls h' (evs @ new)
        \<Longrightarrow> \<exists>k. h' \<in> set (created_for k (evs @ new))"
    proof -
      fix h' assume "0 < connect_calls h' (evs @ new)"
      then have "0 < connect_calls h' evs \<or> 0 < connect_calls h' new" by simp
      then show "\<exists>k. h' \<in> set (created_for k (evs @ new))"
      proof
        assume "0 < connect_calls h' evs"
        from conn [OF this] show ?thesis by auto
      next
        assume "0 < connect_calls h' new"
        from attempt(8) [OF this] attempt(3) show ?thesis by auto
      qed
    qed
    have tr': "trace s' = trace s0 @ evs @ new" using attempt(6) tr by simp
    have "acquire_inv svc s0 cs (sched_step svc i cf) (evs @ new)"
      unfolding cf' by (rule acquire_invI [OF tr' cs' room' all' keys' conn'])
    then show ?thesis ..
  qed
qed


lemma acquire_inv_run:
  "\<exists>evs. acquire_inv svc s0 cs cf evs
   \<Longrightarrow> \<exists>evs. acquire_inv svc s0 cs (run_schedule svc sched cf) evs"
proof (induction sched arbitrary: cf)
  case Nil
  then show ?case by simp
next
  case (Cons i sched)
  from Cons.prems obtain evs where "acquire_inv svc s0 cs cf evs" ..
  from acquire_inv_step [OF this] have "\<exists>evs'. acquire_inv svc s0 cs (sched_step svc i cf) evs'" .
  from Cons.IH [OF this] show ?case by simp
qed

lemma connecting_for_calls [simp]: "connecting_for k (calls cs) = []"
  by (induction cs) (simp_all add: connecting_for_def calls_def)

lemma acquire_inv_init:
  assumes "pool_has_room svc s0 cs"
  shows "acquire_inv svc s0 cs \<lparr>shared = s0, tasks = calls cs\<rparr> []"
proof (rule acquire_invI)
  show "map fst (calls cs) = cs" by (simp add: calls_def comp_def)
  show "\<And>t. t \<in> set (calls cs) \<Longrightarrow> task_ok svc (adapters s0) [] t"
    by (auto simp: calls_def task_ok_def)
  show "\<And>k. key_ok s0 s0 (calls cs) [] k" by (simp add: key_ok_def)
qed (simp_all add: assms)

lemma received_iff:
  "h \<in> set (received svc k ts) \<longleftrightarrow> (\<exists>c. (c, Done (Inr h)) \<in> set ts \<and> tenant_key svc c = k)"
  by (induction ts) (auto simp: received_def split: pc.splits sum.splits if_splits)

text \<open>A step of a call for one tenant key leaves the other keys as they are.\<close>

lemma sched_step_frame:
  assumes inv: "acquire_inv svc s0 cs cf evs"
    and i: "i < length (tasks cf)" and k: "k \<noteq> tenant_key svc (fst (tasks cf ! i))"
  shows "map_of (adapters (shared (sched_step svc i cf))) k = map_of (adapters (shared cf)) k"
    and "created_for k (trace (shared (sched_step svc i cf))) = created_for k (trace (shared cf))"
proof -
  obtain c p where t: "tasks cf ! i = (c, p)" by (cases "tasks cf ! i")
  obtain p' s' where st: "task_step svc c p (shared cf) = (p', s')"
    by (cases "task_step svc c p (shared cf)")
  have mem: "(c, p) \<in> set (tasks cf)" using i t by (metis nth_mem)
  from inv have cs: "map fst (tasks cf) = cs"
    and room: "pool_has_room svc (shared cf) cs"
    and all: "\<And>t. t \<in> set (tasks cf) \<Longrightarrow> task_ok svc (adapters (shared cf)) evs t"
    by (auto simp: acquire_inv_def)
  have c: "c \<in> set cs" using mem cs by force
  have ok: "task_ok svc (adapters (shared cf)) evs (c, p)" using all mem by blast
  have cf': "shared (sched_step svc i cf) = s'"
    using i t st by (simp add: sched_step_def)
  from k t have k': "k \<noteq> tenant_key svc c" by simp
  from room c ok st
  have "map_of (adapters s') k = map_of (adapters (shared cf)) k
      \<and> created_for k (trace s') = created_for k (trace (shared cf))"
  proof (cases rule: task_step_cases)
    case idle
    then show ?thesis by simp
  next
    case (hit item)
    with k' show ?thesis by (simp add: map_of_touchEntry option.map_ident)
  next
    case (miss opts)
    with k' show ?thesis by (simp add: map_of_registerAdapter)
  next
    case (attempt h opts new)
    then show ?thesis by simp
  qed
  with cf' show "map_of (adapters (shared (sched_step svc i cf))) k = map_of (adapters (shared cf)) k"
    and "created_for k (trace (shared (sched_step svc i cf))) = created_for k (trace (shared cf))"
    by simp_all
qed

text \<open>
  Claim C1 (as amended).  Any number of calls of \<open>getAdapter\<close> are pending together on a
  pool that has room for their tenant keys (it has no maximum, or its entries and the new
  keys of the calls are together no more than the maximum), and their steps run in any
  order.  Then at every moment and for every tenant key: the calls that have settled with
  an adapter for the key all have the same adapter, and the adapter created for the key,
  if there is one, is that adapter; at most one adapter has been created for the key,
  none if the pool held the key at the start, and no more calls are connecting for the
  key than adapters have been created for it; every connection attempt has been made on
  an adapter that these calls created, the only one of its key; and a step of a call for
  another key changes neither the pool's entry for the key nor the adapters created for
  it.
\<close>

theorem concurrent_acquire:
  assumes room: "pool_has_room svc s0 cs"
    and run: "cf = run_schedule svc sched \<lparr>shared = s0, tasks = calls cs\<rparr>"
    and evs: "evs = new_events s0 (shared cf)"
  shows "(\<forall>k h h'. h \<in> set (received svc k (tasks cf))
            \<and> h' \<in> set (received svc k (tasks cf) @ created_for k evs) \<longrightarrow> h' = h)
       \<and> (\<forall>k. length (created_for k evs) \<le> 1
            \<and> length (connecting_for k (tasks cf)) \<le> length (created_for k evs)
            \<and> (map_of (adapters s0) k \<noteq> None \<longrightarrow> created_for k evs = []))
       \<and> (\<forall>h. 0 < connect_calls h evs \<longrightarrow> (\<exists>k. created_for k evs = [h]))
       \<and> (\<forall>i k. i < length (tasks cf) \<and> k \<noteq> tenant_key svc (fst (tasks cf ! i))
            \<longrightarrow> map_of (adapters (shared (sched_step svc i cf))) k
                  = map_of (adapters (shared cf)) k
                \<and> created_for k (trace (shared (sched_step svc i cf)))
                  = created_for k (trace (shared cf)))"
proof -
  have "\<exists>evs. acquire_inv svc s0 cs cf evs"
    unfolding run using acquire_inv_init [OF room] by (intro acquire_inv_run) blast
  then obtain evs' where inv: "acquire_inv svc s0 cs cf evs'" ..
  then have "trace (shared cf) = trace s0 @ evs'" by (simp add: acquire_inv_def)
  then have "evs' = evs" by (simp add: evs new_events_def)
  with inv have inv: "acquire_inv svc s0 cs cf evs" by simp
  then have all: "\<And>t. t \<in> set (tasks cf) \<Longrightarrow> task_ok svc (adapters (shared cf)) evs t"
    and keys: "\<And>k. key_ok s0 (shared cf) (tasks cf) evs k"
    and conn: "\<And>h. 0 < connect_calls h evs \<Longrightarrow> \<exists>k. h \<in> set (created_for k evs)"
    by (auto simp: acquire_inv_def)
  have same: "\<forall>k h h'. h \<in> set (received svc k (tasks cf))
            \<and> h' \<in> set (received svc k (tasks cf) @ created_for k evs) \<longrightarrow> h' = h"
  proof (intro allI impI)
    fix k h h'
    assume a: "h \<in> set (received svc k (tasks cf))
        \<and> h' \<in> set (received svc k (tasks cf) @ created_for k evs)"
    then obtain c where "(c, Done (Inr h)) \<in> set (tasks cf)" "tenant_key svc c = k"
      by (auto simp: received_iff)
    with all [of "(c, Done (Inr h))"] have h: "holds (adapters (shared cf)) k h"
      by (simp add: task_ok_def)
    from a have "h' \<in> set (received svc k (tasks cf)) \<or> h' \<in> set (created_for k evs)" by simp
    then have "holds (adapters (shared cf)) k h'"
    proof
      assume "h' \<in> set (received svc k (tasks cf))"
      then obtain c' where "(c', Done (Inr h')) \<in> set (tasks cf)" "tenant_key svc c' = k"
        by (auto simp: received_iff)
      with all [of "(c', Done (Inr h'))"] show ?thesis by (simp add: task_ok_def)
    next
      assume "h' \<in> set (created_for k evs)"
      with keys [of k] show ?thesis by (simp add: key_ok_def)
    qed
    with h show "h' = h" by (auto simp: holds_def split: option.splits)
  qed
  have once: "\<forall>k. length (created_for k evs) \<le> 1
            \<and> length (connecting_for k (tasks cf)) \<le> length (created_for k evs)
            \<and> (map_of (adapters s0) k \<noteq> None \<longrightarrow> created_for k evs = [])"
    using keys by (simp add: key_ok_def)
  have only: "\<forall>h. 0 < connect_calls h evs \<longrightarrow> (\<exists>k. created_for k evs = [h])"
  proof (intro allI impI)
    fix h assume "0 < connect_calls h evs"
    from conn [OF this] obtain k where k: "h \<in> set (created_for k evs)" ..
    moreover from keys [of k] have "length (created_for k evs) \<le> 1" by (simp add: key_ok_def)
    ultimately have "created_for k evs = [h]"
      by (cases "created_for k evs") auto
    then show "\<exists>k. created_for k evs = [h]" ..
  qed
  have frame: "\<forall>i k. i < length (tasks cf) \<and> k \<noteq> tenant_key svc (fst (tasks cf ! i))
            \<longrightarrow> map_of (adapters (shared (sched_step svc i cf))) k
                  = map_of (adapters (shared cf)) k
                \<and> created_for k (trace (shared (sched_step svc i cf)))
                  = created_for k (trace (shared cf))"
    using sched_step_frame [OF inv] by blast
  from same once only frame show ?thesis by blast
qed


theorem concurrent_acquire_witness:
  "pool_has_room demo_service (demo_state 0) [Context 1, Context 2, Context 1]
   \<and> received demo_service ''tenant-1'' (tasks demo_settled) = [0, 0]
   \<and> received demo_service ''tenant-2'' (tasks demo_settled) = [1]
   \<and> created_for ''tenant-1'' (new_events (demo_state 0) (shared demo_settled)) = [0]
   \<and> length (created_for ''tenant-1'' (new_events (demo_state 0) (shared demo_settled))) \<le> 1
   \<and> length (connecting_for ''tenant-1'' (tasks demo_settled))
       \<le> length (created_for ''tenant-1'' (new_events (demo_state 0) (shared demo_settled)))"
proof -
  let ?cs = "[Context 1, Context 2, Context 1]"
  have room: "pool_has_room demo_service (demo_state 0) ?cs" by code_simp
  have run: "demo_settled
      = run_schedule demo_service [0, 1, 2, 0, 1, 2] \<lparr>shared = demo_state 0, tasks = calls ?cs\<rparr>"
    by (simp add: demo_settled_def demo_calls_def)
  have r1: "received demo_service ''tenant-1'' (tasks demo_settled) = [0, 0]" by code_simp
  have r2: "received demo_service ''tenant-2'' (tasks demo_settled) = [1]" by code_simp
  have c1: "created_for ''tenant-1'' (new_events (demo_state 0) (shared demo_settled)) = [0]"
    by code_simp
  from concurrent_acquire [OF room run refl]
  have "length (created_for ''tenant-1'' (new_events (demo_state 0) (shared demo_settled))) \<le> 1
      \<and> length (connecting_for ''tenant-1'' (tasks demo_settled))
          \<le> length (created_for ''tenant-1'' (new_events (demo_state 0) (shared demo_settled)))"
    by blast
  with room r1 r2 c1 show ?thesis by blast
qed

theorem concurrent_acquire_eviction_counterexample:
  "maximumAdapters (mixinOpts demo_single) = Some 1
   \<and> tasks demo_evicted
       = [(Context 1, Done (Inr 0)), (Context 2, Done (Inr 1)), (Context 1, Done (Inr 2))]
   \<and> received demo_single ''tenant-1'' (tasks demo_evicted) = [0, 2]
   \<and> created_for ''tenant-1'' (new_events (demo_state 0) (shared demo_evicted)) = [0, 2]
   \<and> connect_calls 0 (new_events (demo_state 0) (shared demo_evicted)) = 1
   \<and> connect_calls 2 (new_events (demo_state 0) (shared demo_evicted)) = 1"
  by code_simp

end
